theory Spec2Isabelle
  imports Complex_Main "HOL-Library.Word"
begin

section \<open>The double-ended queue (queue.c)\<close>

text \<open>
  A \<open>queue_element_t\<close> is a directory still to be scanned. The \<open>parent\<close> and \<open>next\<close>
  pointers only chain the elements and are represented by the list that holds them.
\<close>

record queue_element =
  name :: string
  dirpos :: int
  directsubdirs :: int
  fs :: string

text \<open>
  A \<open>queue_anchor_t\<close>: the chain \<open>first \<dots> last\<close> is the list \<open>elems\<close>, and
  \<open>element_counter\<close>, which the C code keeps equal to the length of the chain, is
  read off the list. \<open>speed\<close> is a C double; doubles are represented by the real
  numbers they denote.
\<close>

record queue_anchor =
  speed :: real
  elems :: "queue_element list"

definition element_counter :: "queue_anchor \<Rightarrow> int" where
  "element_counter anchor = int (length (elems anchor))"

definition deq_init :: queue_anchor where
  "deq_init = \<lparr>speed = 0, elems = []\<rparr>"

definition deq_put :: "queue_anchor \<Rightarrow> queue_element \<Rightarrow> queue_anchor" where
  "deq_put anchor new = anchor\<lparr>elems := elems anchor @ [new]\<rparr>"

definition deq_push :: "queue_anchor \<Rightarrow> queue_element \<Rightarrow> queue_anchor" where
  "deq_push anchor new = anchor\<lparr>elems := new # elems anchor\<rparr>"



text \<open>\<open>deq_get\<close> returns the removed first element (\<open>None\<close> for NULL) and the new anchor.\<close>

definition deq_get :: "queue_anchor \<Rightarrow> queue_element option \<times> queue_anchor" where
  "deq_get anchor =
     (if element_counter anchor > 0
      then (case elems anchor of
              [] \<Rightarrow> (None, anchor)
            | ptr # rest \<Rightarrow> (Some ptr, anchor\<lparr>elems := rest\<rparr>))
      else (None, anchor))"

section \<open>The shared scheduler state and dispatch (chuid.c, handle_subtree)\<close>

text \<open>
  The globals guarded by the mutex \<open>thr_queue\<close>. \<open>busy_count\<close> is a \<open>size_t\<close>: a natural
  number below \<open>2 ^ 64\<close>, with the wrap-around written out where it is changed.
\<close>

record sched =
  fast_anchor :: queue_anchor
  slow_anchor :: queue_anchor
  fast_nodes_befor_next_slow_node :: int
  busy_count :: nat
  notfinished :: bool

text \<open>
  \<open>(long) ceil (fast_anchor->speed / slow_anchor->speed)\<close>. The C code divides without
  looking at the divisor. With a divisor of zero the quotient is an infinity or a NaN,
  and the conversion of such a value to \<open>long\<close> is undefined in C, as is the conversion
  of a value outside the range of \<open>long\<close>: the result is \<open>None\<close> there. Rounding of the
  quotient is not modelled.
\<close>

definition ceil_ratio :: "real \<Rightarrow> real \<Rightarrow> int option" where
  "ceil_ratio f s =
     (if s = 0 then None
      else if - (2 ^ 63) \<le> \<lceil>f / s\<rceil> \<and> \<lceil>f / s\<rceil> < 2 ^ 63 then Some \<lceil>f / s\<rceil>
      else None)"

text \<open>
  The choice between the two global deques in dual-queue mode (lines 1481 to 1496).
  The result is \<open>None\<close> when the recomputation of the counter is undefined.
\<close>

definition select_dual :: "sched \<Rightarrow> (queue_element option \<times> sched) option" where
  "select_dual s =
     (if fast_nodes_befor_next_slow_node s > 0 then
        (case deq_get (fast_anchor s) of
           (Some qe, fa) \<Rightarrow>
             Some (Some qe, s\<lparr>fast_anchor := fa,
                     fast_nodes_befor_next_slow_node := fast_nodes_befor_next_slow_node s - 1\<rparr>)
         | (None, fa) \<Rightarrow>
             (case deq_get (slow_anchor s) of
                (Some qe, sa) \<Rightarrow>
                  (case ceil_ratio (speed (fast_anchor s)) (speed (slow_anchor s)) of
                     None \<Rightarrow> None
                   | Some c \<Rightarrow> Some (Some qe, s\<lparr>slow_anchor := sa,
                                  fast_nodes_befor_next_slow_node := c\<rparr>))
              | (None, sa) \<Rightarrow> Some (None, s)))
      else
        (case deq_get (slow_anchor s) of
           (Some qe, sa) \<Rightarrow>
             (case ceil_ratio (speed (fast_anchor s)) (speed (slow_anchor s)) of
                None \<Rightarrow> None
              | Some c \<Rightarrow> Some (Some qe, s\<lparr>slow_anchor := sa,
                             fast_nodes_befor_next_slow_node := c\<rparr>))
         | (None, sa) \<Rightarrow>
             (case deq_get (fast_anchor s) of
                (qe, fa) \<Rightarrow> Some (qe, s\<lparr>fast_anchor := fa\<rparr>))))"

text \<open>The adjustment of the speeds after the choice (lines 1497 to 1503).\<close>

definition decay_speeds :: "sched \<Rightarrow> sched" where
  "decay_speeds s =
     (if element_counter (fast_anchor s) = 0 \<and> element_counter (slow_anchor s) = 0
      then s\<lparr>fast_anchor := (fast_anchor s)\<lparr>speed := 0\<rparr>,
             slow_anchor := (slow_anchor s)\<lparr>speed := 0\<rparr>\<rparr>
      else if element_counter (fast_anchor s) = 0
      then s\<lparr>fast_anchor := (fast_anchor s)\<lparr>speed := speed (slow_anchor s)\<rparr>\<rparr>
      else if element_counter (slow_anchor s) = 0
      then s\<lparr>slow_anchor := (slow_anchor s)\<lparr>speed := speed (fast_anchor s)\<rparr>\<rparr>
      else s)"

text \<open>
  The critical section of a worker that found \<open>notfinished\<close> set (lines 1480 to 1508):
  the choice of an element, and \<open>busy_count++\<close> when one was taken.
\<close>

definition take_element :: "bool \<Rightarrow> sched \<Rightarrow> (queue_element option \<times> sched) option" where
  "take_element dual_queue s =
     (if dual_queue
      then map_option (\<lambda>(qe, s'). (qe, decay_speeds s')) (select_dual s)
      else (case deq_get (fast_anchor s) of (qe, fa) \<Rightarrow> Some (qe, s\<lparr>fast_anchor := fa\<rparr>)))"

definition dispatch :: "bool \<Rightarrow> sched \<Rightarrow> (queue_element option \<times> sched) option" where
  "dispatch dual_queue s =
     (case take_element dual_queue s of
        None \<Rightarrow> None
      | Some (None, s') \<Rightarrow> Some (None, s')
      | Some (Some qe, s') \<Rightarrow>
          Some (Some qe, s'\<lparr>busy_count := (busy_count s' + 1) mod 2 ^ 64\<rparr>))"


section \<open>Handing private work over to the global deques (chuid.c, process_tile)\<close>

record timeval =
  tv_sec :: int
  tv_usec :: int

text \<open>\<open>delta\<close> of line 1320: the seconds between two \<open>gettimeofday\<close> results.\<close>

definition elapsed :: "timeval \<Rightarrow> timeval \<Rightarrow> real" where
  "elapsed t1 t2 =
     real_of_int (tv_sec t2 - tv_sec t1) + real_of_int (tv_usec t2 - tv_usec t1) / 1000000"

text \<open>\<open>scanrate\<close> of line 1321.\<close>

definition scan_rate :: "int \<Rightarrow> timeval \<Rightarrow> timeval \<Rightarrow> real" where
  "scan_rate directories_scanned t1 t2 =
     (let delta = elapsed t1 t2
      in if delta > 0 then real_of_int directories_scanned / delta
         else real_of_int directories_scanned)"




section \<open>The thread count option (chuid.c, main, case 't')\<close>

text \<open>
  \<open>numthr\<close> is a \<open>size_t\<close> (64 bits), \<open>max_openfiles\<close> an \<open>unsigned int\<close> (32 bits).
  The comparison of line 1683 is made in \<open>size_t\<close>, the subtraction of line 1684 in
  \<open>unsigned int\<close>. \<open>None\<close> is the exit with EXIT_FAILURE of line 1682.
\<close>

definition PTHREAD_THREADS_MAX :: "64 word" where
  "PTHREAD_THREADS_MAX = 256"

definition OPENFILES_OFFSET :: "32 word" where
  "OPENFILES_OFFSET = 5"

definition thread_option :: "32 word \<Rightarrow> 64 word \<Rightarrow> 64 word option" where
  "thread_option max_openfiles numthr =
     (if numthr > PTHREAD_THREADS_MAX then None
      else if ucast max_openfiles - numthr < ucast OPENFILES_OFFSET
      then Some (ucast (max_openfiles - OPENFILES_OFFSET))
      else Some numthr)"

section \<open>The hash table of visited hard links (hash.c)\<close>

text \<open>
  An entry of the arena \<open>het_tab\<close>. Pointers into the arena (\<open>c_link\<close> and the bucket
  heads) are indices into it, \<open>None\<close> for NULL. \<open>ino_t\<close> and \<open>dev_t\<close> values are natural
  numbers; the only arithmetic on them is \<open>ino % mod\<close>.
\<close>

record h_ent =
  ino :: nat
  dev :: nat
  c_link :: "nat option"

text \<open>
  \<open>struct htab\<close>. The field \<open>mod\<close> is \<open>mod_h\<close> here. The arena is a list of
  \<open>het_tab_size\<close> slots, \<open>None\<close> for a slot that was allocated and never written.
  \<open>mod\<close>, \<open>het_tab_size\<close> and \<open>first_free\<close> are \<open>unsigned int\<close>: natural numbers with
  the wrap-around at \<open>2 ^ 32\<close> written out where they are computed.
\<close>

record htab =
  mod_h :: nat
  het_tab_size :: nat
  first_free :: nat
  het_tab :: "h_ent option list"
  hash :: "nat option list"

definition h_reset :: "htab \<Rightarrow> htab" where
  "h_reset ht = ht\<lparr>first_free := 0, hash := replicate (mod_h ht) None\<rparr>"

definition h_init :: "nat \<Rightarrow> nat \<Rightarrow> htab" where
  "h_init m n =
     h_reset \<lparr>mod_h = m, het_tab_size = n, first_free = 0, het_tab = replicate n None, hash = []\<rparr>"

definition INIT_MODULE :: nat where
  "INIT_MODULE = 100"

definition INIT_TAB_SIZE :: nat where
  "INIT_TAB_SIZE = 70"

text \<open>
  The walk along a bucket's chain in \<open>h_ins\<close> (lines 50 to 57), starting at the pointer
  \<open>ep\<close>. The result is \<open>None\<close> when the walk reads outside the arena or a slot never
  written, and when it does not end.
\<close>

partial_function (option) chain_lookup ::
  "nat option \<Rightarrow> h_ent option list \<Rightarrow> nat \<Rightarrow> nat \<Rightarrow> bool option" where
  "chain_lookup ep tab i d =
     (case ep of
        None \<Rightarrow> Some False
      | Some k \<Rightarrow>
          (if k < length tab
           then (case tab ! k of
                   None \<Rightarrow> None
                 | Some e \<Rightarrow>
                     if ino e = i \<and> dev e = d then Some True
                     else chain_lookup (c_link e) tab i d)
           else None))"

declare chain_lookup.simps [code]

text \<open>
  \<open>h_ins\<close> returns \<open>True\<close> for 1 (the pair was in the table) and \<open>False\<close> for 0 (it was
  not, and is now), with the new table. \<open>None\<close>: a division by zero, a write behind the
  arena, or a failed walk.
\<close>

definition h_ins :: "htab \<Rightarrow> nat \<Rightarrow> nat \<Rightarrow> (bool \<times> htab) option" where
  "h_ins ht i d =
     (if mod_h ht = 0 then None
      else if i mod mod_h ht < length (hash ht) then
        (case chain_lookup (hash ht ! (i mod mod_h ht)) (het_tab ht) i d of
           None \<Rightarrow> None
         | Some True \<Rightarrow> Some (True, ht)
         | Some False \<Rightarrow>
             (if first_free ht < length (het_tab ht)
              then Some (False,
                     ht\<lparr>first_free := (first_free ht + 1) mod 2 ^ 32,
                        het_tab := (het_tab ht)[first_free ht :=
                                      Some \<lparr>ino = i, dev = d, c_link = hash ht ! (i mod mod_h ht)\<rparr>],
                        hash := (hash ht)[i mod mod_h ht := Some (first_free ht)]\<rparr>)
              else None))
      else None)"

text \<open>The loop of lines 101 to 104: \<open>n\<close> entries are inserted again, from slot \<open>k\<close> on.\<close>

fun rehash :: "nat \<Rightarrow> nat \<Rightarrow> htab \<Rightarrow> htab option" where
  "rehash 0 k ht = Some ht"
| "rehash (Suc n) k ht =
     (if k < length (het_tab ht)
      then (case het_tab ht ! k of
              None \<Rightarrow> None
            | Some e \<Rightarrow>
                (case h_ins ht (ino e) (dev e) of
                   None \<Rightarrow> None
                 | Some (known, ht') \<Rightarrow> rehash n (Suc k) ht'))
      else None)"

text \<open>\<open>realloc\<close> of the arena to \<open>n\<close> slots: the old slots are kept, new ones are unwritten.\<close>

definition realloc_tab :: "h_ent option list \<Rightarrow> nat \<Rightarrow> h_ent option list" where
  "realloc_tab tab n = take n tab @ replicate (n - length tab) None"

definition h_mins :: "htab \<Rightarrow> nat \<Rightarrow> nat \<Rightarrow> (bool \<times> htab) option" where
  "h_mins ht i d =
     (if first_free ht \<ge> het_tab_size ht
      then (let mod' = (2 * mod_h ht) mod 2 ^ 32;
                size' = (2 * het_tab_size ht) mod 2 ^ 32;
                ht1 = ht\<lparr>mod_h := mod', het_tab_size := size',
                         het_tab := realloc_tab (het_tab ht) size'\<rparr>
            in case rehash (first_free ht1) 0 (h_reset ht1) of
                 None \<Rightarrow> None
               | Some ht2 \<Rightarrow> h_ins ht2 i d)
      else h_ins ht i d)"

text \<open>A sequence of \<open>h_mins\<close> calls, each on the table the call before left.\<close>

fun h_mins_list :: "htab \<Rightarrow> (nat \<times> nat) list \<Rightarrow> (bool list \<times> htab) option" where
  "h_mins_list ht [] = Some ([], ht)"
| "h_mins_list ht ((i, d) # cs) =
     (case h_mins ht i d of
        None \<Rightarrow> None
      | Some (r, ht') \<Rightarrow>
          (case h_mins_list ht' cs of
             None \<Rightarrow> None
           | Some (rs, ht'') \<Rightarrow> Some (r # rs, ht'')))"

section \<open>The file system as the program sees it\<close>

datatype ftype = S_IFREG | S_IFLNK | S_IFDIR | S_IFOTHER

text \<open>The fields of \<open>struct stat\<close> the program reads. \<open>uid_t\<close> and \<open>gid_t\<close> are 32 bits wide.\<close>

record stat =
  st_mode :: ftype
  st_ino :: nat
  st_dev :: nat
  st_nlink :: nat
  st_uid :: "32 word"
  st_gid :: "32 word"

record inode =
  i_mode :: ftype
  i_nlink :: nat
  i_uid :: "32 word"
  i_gid :: "32 word"

text \<open>
  A path names an inode by its pair (inode number, device); hard links are paths that
  name the same pair. Ownership belongs to the inode. \<open>may_chown\<close> says which requests
  to change an inode's owner and group the system grants; it does not change during a
  run.
\<close>

record filesys =
  dentry :: "string \<Rightarrow> (nat \<times> nat) option"
  inode_of :: "nat \<times> nat \<Rightarrow> inode option"
  may_chown :: "nat \<times> nat \<Rightarrow> 32 word \<Rightarrow> 32 word \<Rightarrow> bool"

definition lstat :: "filesys \<Rightarrow> string \<Rightarrow> stat option" where
  "lstat fsy path =
     (case dentry fsy path of
        None \<Rightarrow> None
      | Some k \<Rightarrow>
          (case inode_of fsy k of
             None \<Rightarrow> None
           | Some n \<Rightarrow>
               Some \<lparr>st_mode = i_mode n, st_ino = fst k, st_dev = snd k, st_nlink = i_nlink n,
                     st_uid = i_uid n, st_gid = i_gid n\<rparr>))"

text \<open>
  \<open>lchown(path, owner, group)\<close>: an argument of \<open>-1\<close> leaves that id as it is. \<open>None\<close> is
  the failure of the call, which changes nothing.
\<close>

definition lchown :: "filesys \<Rightarrow> string \<Rightarrow> 32 word \<Rightarrow> 32 word \<Rightarrow> filesys option" where
  "lchown fsy path owner grp =
     (case dentry fsy path of
        None \<Rightarrow> None
      | Some k \<Rightarrow>
          (case inode_of fsy k of
             None \<Rightarrow> None
           | Some n \<Rightarrow>
               if may_chown fsy k owner grp
               then Some (fsy\<lparr>inode_of := (inode_of fsy)
                            (k := Some (n\<lparr>i_uid := (if owner = - 1 then i_uid n else owner),
                                          i_gid := (if grp = - 1 then i_gid n else grp)\<rparr>))\<rparr>)
               else None))"

text \<open>
  \<open>chown\<close> differs from \<open>lchown\<close> on a symbolic link only; the program calls it on
  paths that \<open>lstat\<close> reported as regular files or directories.
\<close>

definition chown :: "filesys \<Rightarrow> string \<Rightarrow> 32 word \<Rightarrow> 32 word \<Rightarrow> filesys option" where
  "chown fsy path owner grp = lchown fsy path owner grp"

section \<open>The id lists (config.c)\<close>

text \<open>\<open>uid_list\<close> and \<open>gid_list\<close>: a pair is appended unless its old id is in the list.\<close>

fun uid_list :: "(32 word \<times> 32 word) list \<Rightarrow> 32 word \<Rightarrow> 32 word \<Rightarrow> (32 word \<times> 32 word) list" where
  "uid_list [] olduid newuid = [(olduid, newuid)]"
| "uid_list (p # ps) olduid newuid =
     (if fst p \<noteq> olduid then p # uid_list ps olduid newuid else p # ps)"

fun gid_list :: "(32 word \<times> 32 word) list \<Rightarrow> 32 word \<Rightarrow> 32 word \<Rightarrow> (32 word \<times> 32 word) list" where
  "gid_list [] oldgid newgid = [(oldgid, newgid)]"
| "gid_list (p # ps) oldgid newgid =
     (if fst p \<noteq> oldgid then p # gid_list ps oldgid newgid else p # ps)"

datatype id_tag = Tag_u | Tag_g

text \<open>The well-formed lines of the map file, in order, as \<open>parseuidlist\<close> passes them on.\<close>

fun parse_pairs ::
  "(id_tag \<times> 32 word \<times> 32 word) list \<Rightarrow> (32 word \<times> 32 word) list \<times> (32 word \<times> 32 word) list
     \<Rightarrow> (32 word \<times> 32 word) list \<times> (32 word \<times> 32 word) list" where
  "parse_pairs [] acc = acc"
| "parse_pairs ((Tag_u, oldid, newid) # ls) (us, gs) = parse_pairs ls (uid_list us oldid newid, gs)"
| "parse_pairs ((Tag_g, oldid, newid) # ls) (us, gs) = parse_pairs ls (us, gid_list gs oldid newid)"

section \<open>The rewrite of one directory entry (chuid.c, process_tile)\<close>

datatype severity = INFO | WARNING | ERROR

datatype id_kind = Uid | Gid

text \<open>
  What a run does to the outside: calls of \<open>chown\<close> and \<open>lchown\<close> with their arguments
  (made, whether or not they succeed), lines on stdout in dry-run mode (path, label,
  kind of id, old and new id), and log records (severity and the path they are about).
  The user and group names in the messages come from the system's databases and are
  left out, as is memory management.
\<close>

datatype event =
    Chown string "32 word" "32 word"
  | Lchown string "32 word" "32 word"
  | Stdout string string id_kind "32 word" "32 word"
  | Log severity string

definition sys_chown :: "bool \<Rightarrow> filesys \<Rightarrow> string \<Rightarrow> 32 word \<Rightarrow> 32 word \<Rightarrow> filesys option" where
  "sys_chown lnk fsy path owner grp =
     (if lnk then lchown fsy path owner grp else chown fsy path owner grp)"

definition call_event :: "bool \<Rightarrow> string \<Rightarrow> 32 word \<Rightarrow> 32 word \<Rightarrow> event" where
  "call_event lnk path owner grp = (if lnk then Lchown path owner grp else Chown path owner grp)"

text \<open>
  The loop over the uid pairs, which the source has six times (regular file, symbolic
  link and directory, each in dry-run and in real mode); the copies differ in the call
  (\<open>lnk\<close>: \<open>lchown\<close> for a symbolic link) and in the label of the message. In dry-run mode
  the first match prints a line and ends the loop. In real mode a match calls \<open>chown\<close>:
  success logs at INFO and ends the loop, failure logs at WARNING and the loop goes on.
\<close>

fun uid_pass ::
  "bool \<Rightarrow> bool \<Rightarrow> string \<Rightarrow> string \<Rightarrow> stat \<Rightarrow> (32 word \<times> 32 word) list
     \<Rightarrow> filesys \<times> event list \<Rightarrow> filesys \<times> event list" where
  "uid_pass dryrun lnk label path t_statbuf [] (fsy, tr) = (fsy, tr)"
| "uid_pass dryrun lnk label path t_statbuf ((olduid, newuid) # uptr) (fsy, tr) =
     (if olduid = st_uid t_statbuf then
        (if dryrun then (fsy, tr @ [Stdout path label Uid olduid newuid])
         else (case sys_chown lnk fsy path newuid (- 1) of
                 Some fsy' \<Rightarrow> (fsy', tr @ [call_event lnk path newuid (- 1), Log INFO path])
               | None \<Rightarrow>
                   uid_pass dryrun lnk label path t_statbuf uptr
                     (fsy, tr @ [call_event lnk path newuid (- 1), Log WARNING path])))
      else uid_pass dryrun lnk label path t_statbuf uptr (fsy, tr))"

fun gid_pass ::
  "bool \<Rightarrow> bool \<Rightarrow> string \<Rightarrow> string \<Rightarrow> stat \<Rightarrow> (32 word \<times> 32 word) list
     \<Rightarrow> filesys \<times> event list \<Rightarrow> filesys \<times> event list" where
  "gid_pass dryrun lnk label path t_statbuf [] (fsy, tr) = (fsy, tr)"
| "gid_pass dryrun lnk label path t_statbuf ((oldgid, newgid) # gptr) (fsy, tr) =
     (if oldgid = st_gid t_statbuf then
        (if dryrun then (fsy, tr @ [Stdout path label Gid oldgid newgid])
         else (case sys_chown lnk fsy path (- 1) newgid of
                 Some fsy' \<Rightarrow> (fsy', tr @ [call_event lnk path (- 1) newgid, Log INFO path])
               | None \<Rightarrow>
                   gid_pass dryrun lnk label path t_statbuf gptr
                     (fsy, tr @ [call_event lnk path (- 1) newgid, Log WARNING path])))
      else gid_pass dryrun lnk label path t_statbuf gptr (fsy, tr))"

record config =
  dryrun :: bool
  begin_uidpair :: "(32 word \<times> 32 word) list"
  begin_gidpair :: "(32 word \<times> 32 word) list"
  begin_exclude_file :: "string list"

definition rewrite_ids ::
  "config \<Rightarrow> bool \<Rightarrow> string \<Rightarrow> string \<Rightarrow> stat \<Rightarrow> filesys \<times> event list \<Rightarrow> filesys \<times> event list" where
  "rewrite_ids cfg lnk label path t_statbuf acc =
     gid_pass (dryrun cfg) lnk label path t_statbuf (begin_gidpair cfg)
       (uid_pass (dryrun cfg) lnk label path t_statbuf (begin_uidpair cfg) acc)"

text \<open>
  What the scan threads share and change: the file system, the hash table of hard
  links seen (guarded by \<open>thr_nlink\<close>), and the trace of events.
\<close>

record scan =
  fsys :: filesys
  nlinks :: htab
  out :: "event list"

text \<open>
  The body of the \<open>readdir\<close> loop for one child that is not excluded (lines 676 to
  1187), for the directory \<open>w_element\<close>. The result holds the new deque element when
  the child is a directory. \<open>None\<close>: the hash table call failed.
\<close>

definition process_child ::
  "config \<Rightarrow> queue_element \<Rightarrow> string \<Rightarrow> scan \<Rightarrow> (scan \<times> queue_element option) option" where
  "process_child cfg w_element pathofchild sc =
     (case lstat (fsys sc) pathofchild of
        None \<Rightarrow> Some (sc\<lparr>out := out sc @ [Log WARNING pathofchild]\<rparr>, None)
      | Some t_statbuf \<Rightarrow>
          (case st_mode t_statbuf of
             S_IFREG \<Rightarrow>
               (case (if st_nlink t_statbuf > 1
                      then h_mins (nlinks sc) (st_ino t_statbuf) (st_dev t_statbuf)
                      else Some (False, nlinks sc)) of
                  None \<Rightarrow> None
                | Some (known_nlink_file, ht) \<Rightarrow>
                    if st_nlink t_statbuf = 1 \<or> \<not> known_nlink_file
                    then (case rewrite_ids cfg False ''FILE'' pathofchild t_statbuf (fsys sc, out sc) of
                            (fsy, tr) \<Rightarrow> Some (\<lparr>fsys = fsy, nlinks = ht, out = tr\<rparr>, None))
                    else Some (sc\<lparr>nlinks := ht\<rparr>, None))
           | S_IFLNK \<Rightarrow>
               (case rewrite_ids cfg True ''DIRECTORY'' pathofchild t_statbuf (fsys sc, out sc) of
                  (fsy, tr) \<Rightarrow> Some (sc\<lparr>fsys := fsy, out := tr\<rparr>, None))
           | S_IFDIR \<Rightarrow>
               (case rewrite_ids cfg False ''DIRECTORY'' pathofchild t_statbuf (fsys sc, out sc) of
                  (fsy, tr) \<Rightarrow>
                    Some (sc\<lparr>fsys := fsy, out := tr\<rparr>,
                          Some \<lparr>name = pathofchild, dirpos = 0, directsubdirs = 0, fs = fs w_element\<rparr>))
           | S_IFOTHER \<Rightarrow> Some (sc, None)))"

text \<open>
  One turn of the \<open>readdir\<close> loop (lines 653 to 1187) for the entry \<open>d_name\<close> of the
  directory \<open>w_element\<close>: dot, dot-dot and excluded names are skipped.
\<close>

definition dir_entry ::
  "config \<Rightarrow> queue_element \<Rightarrow> string \<Rightarrow> scan \<Rightarrow> (scan \<times> queue_element option) option" where
  "dir_entry cfg w_element d_name sc =
     (if d_name \<noteq> ''.'' \<and> d_name \<noteq> ''..'' \<and> d_name \<notin> set (begin_exclude_file cfg)
      then process_child cfg w_element (name w_element @ ''/'' @ d_name) sc
      else Some (sc, None))"

text \<open>
  A run, as far as the file system, the hash table and the trace go, is a sequence of
  such turns: the entries of the scanned directories in the order in which the threads
  get to them. The hash table call is made under the mutex \<open>thr_nlink\<close>, so the calls
  of a run are in a sequence too.
\<close>

fun scan_entries :: "config \<Rightarrow> (queue_element \<times> string) list \<Rightarrow> scan \<Rightarrow> scan option" where
  "scan_entries cfg [] sc = Some sc"
| "scan_entries cfg ((w_element, d_name) # es) sc =
     (case dir_entry cfg w_element d_name sc of
        None \<Rightarrow> None
      | Some (sc', new) \<Rightarrow> scan_entries cfg es sc')"

definition start_scan :: "filesys \<Rightarrow> scan" where
  "start_scan fsy = \<lparr>fsys = fsy, nlinks = h_init INIT_MODULE INIT_TAB_SIZE, out = []\<rparr>"

section \<open>Start-up: the roots and the pool (chuid.c, main and handle_subtree)\<close>

text \<open>The loop of lines 1773 to 1807 over the list of roots.\<close>

fun seed_roots :: "filesys \<Rightarrow> string list \<Rightarrow> queue_anchor \<times> event list \<Rightarrow> queue_anchor \<times> event list" where
  "seed_roots fsy [] acc = acc"
| "seed_roots fsy (dirpath # rest) (fast, tr) =
     (case lstat fsy dirpath of
        Some statbuf \<Rightarrow>
          seed_roots fsy rest
            (deq_put fast \<lparr>name = dirpath, dirpos = 0, directsubdirs = 0, fs = dirpath\<rparr>, tr)
      | None \<Rightarrow> seed_roots fsy rest (fast, tr @ [Log WARNING dirpath]))"

text \<open>
  A worker is at the test of its \<open>while (notfinished)\<close> loop, inside the first critical
  section (waiting for the mutex or on the condition variable), inside
  \<open>process_tile\<close>, or has left its loop.
\<close>

datatype wstate = Checking | Waiting | Working | Gone

text \<open>
  The pool: the shared scheduler state, the state of each worker, and the workers that
  executed \<open>notfinished = 0\<close>, in the order in which they did.
\<close>

record pool =
  sch :: sched
  workers :: "wstate list"
  flipped_by :: "nat list"

text \<open>
  \<open>main\<close> from line 1765 on: EXIT_FAILURE with a message on stderr when there is no
  root or none passes \<open>lstat\<close>; otherwise the pool of \<open>numthr\<close> workers is started on the
  seeded fast deque.
\<close>

definition main_start :: "filesys \<Rightarrow> nat \<Rightarrow> string list \<Rightarrow> string + (pool \<times> event list)" where
  "main_start fsy numthr begin_fs_list =
     (if begin_fs_list = [] then Inl ''ERROR: No files systems to work on!''
      else (case seed_roots fsy begin_fs_list (deq_init, []) of
              (fast, tr) \<Rightarrow>
                if elems fast = [] then Inl ''ERROR: No valid files systems to work on!''
                else Inr (\<lparr>sch = \<lparr>fast_anchor = fast, slow_anchor = deq_init,
                                  fast_nodes_befor_next_slow_node = 0, busy_count = 0,
                                  notfinished = True\<rparr>,
                           workers = replicate numthr Checking, flipped_by = []\<rparr>, tr)))"





section \<open>Notions for stating the properties\<close>

subsection \<open>The hash table\<close>

definition pair_at :: "h_ent option list \<Rightarrow> nat \<Rightarrow> nat \<times> nat" where
  "pair_at tab k = (case tab ! k of None \<Rightarrow> (0, 0) | Some e \<Rightarrow> (ino e, dev e))"

definition link_at :: "h_ent option list \<Rightarrow> nat \<Rightarrow> nat option" where
  "link_at tab k = (case tab ! k of None \<Rightarrow> None | Some e \<Rightarrow> c_link e)"

definition last_in :: "h_ent option list \<Rightarrow> nat \<Rightarrow> nat \<Rightarrow> nat \<Rightarrow> nat option \<Rightarrow> bool" where
  "last_in tab m b n p =
     (case p of
        None \<Rightarrow> (\<forall>j<n. fst (pair_at tab j) mod m \<noteq> b)
      | Some h \<Rightarrow> h < n \<and> fst (pair_at tab h) mod m = b \<and>
                 (\<forall>j. h < j \<and> j < n \<longrightarrow> fst (pair_at tab j) mod m \<noteq> b))"

definition hinv_gen :: "htab \<Rightarrow> nat \<Rightarrow> bool" where
  "hinv_gen ht N \<longleftrightarrow>
     0 < mod_h ht \<and> length (hash ht) = mod_h ht \<and> length (het_tab ht) = het_tab_size ht \<and>
     first_free ht \<le> N \<and> N \<le> het_tab_size ht \<and>
     (\<forall>k<N. het_tab ht ! k \<noteq> None) \<and>
     inj_on (pair_at (het_tab ht)) {..<N} \<and>
     (\<forall>b<mod_h ht. last_in (het_tab ht) (mod_h ht) b (first_free ht) (hash ht ! b)) \<and>
     (\<forall>k<first_free ht.
        last_in (het_tab ht) (mod_h ht) (fst (pair_at (het_tab ht) k) mod mod_h ht) k (link_at (het_tab ht) k))"

definition hinv :: "htab \<Rightarrow> bool" where
  "hinv ht \<longleftrightarrow> hinv_gen ht (first_free ht)"

definition contents :: "htab \<Rightarrow> (nat \<times> nat) set" where
  "contents ht = pair_at (het_tab ht) ` {..<first_free ht}"

definition h_add :: "htab \<Rightarrow> nat \<Rightarrow> nat \<Rightarrow> htab" where
  "h_add ht i d =
     ht\<lparr>first_free := (first_free ht + 1) mod 2 ^ 32,
        het_tab := (het_tab ht)[first_free ht :=
                      Some \<lparr>ino = i, dev = d, c_link = hash ht ! (i mod mod_h ht)\<rparr>],
        hash := (hash ht)[i mod mod_h ht := Some (first_free ht)]\<rparr>"

definition hwf :: "htab \<Rightarrow> bool" where
  "hwf ht \<longleftrightarrow> hinv ht \<and> 0 < het_tab_size ht \<and> mod_h ht \<le> 2 * het_tab_size ht"

definition h_grow :: "htab \<Rightarrow> htab" where
  "h_grow ht =
     h_reset (ht\<lparr>mod_h := (2 * mod_h ht) mod 2 ^ 32, het_tab_size := (2 * het_tab_size ht) mod 2 ^ 32,
                 het_tab := realloc_tab (het_tab ht) ((2 * het_tab_size ht) mod 2 ^ 32)\<rparr>)"

fun seen_before :: "(nat \<times> nat) set \<Rightarrow> (nat \<times> nat) list \<Rightarrow> bool list" where
  "seen_before S [] = []"
| "seen_before S (c # cs) = (c \<in> S) # seen_before (insert c S) cs"

subsection \<open>The rewrite of an entry\<close>

text \<open>The calls among the events, and the calls made on a path that names the inode \<open>k\<close>.\<close>

fun is_call :: "event \<Rightarrow> bool" where
  "is_call (Chown path owner grp) = True"
| "is_call (Lchown path owner grp) = True"
| "is_call (Stdout path label kind old new) = False"
| "is_call (Log sev path) = False"

fun event_path :: "event \<Rightarrow> string" where
  "event_path (Chown path owner grp) = path"
| "event_path (Lchown path owner grp) = path"
| "event_path (Stdout path label kind old new) = path"
| "event_path (Log sev path) = path"

definition calls_on :: "filesys \<Rightarrow> nat \<times> nat \<Rightarrow> event list \<Rightarrow> event list" where
  "calls_on fsy k tr = filter (\<lambda>e. is_call e \<and> dentry fsy (event_path e) = Some k) tr"

text \<open>The lines of a dry run for an entry: one for the first pair that matches its uid, one for the first pair that matches its gid.\<close>

definition dry_lines :: "config \<Rightarrow> string \<Rightarrow> string \<Rightarrow> stat \<Rightarrow> event list" where
  "dry_lines cfg label path st =
     (case map_of (begin_uidpair cfg) (st_uid st) of
        None \<Rightarrow> []
      | Some newuid \<Rightarrow> [Stdout path label Uid (st_uid st) newuid]) @
     (case map_of (begin_gidpair cfg) (st_gid st) of
        None \<Rightarrow> []
      | Some newgid \<Rightarrow> [Stdout path label Gid (st_gid st) newgid])"

text \<open>
  The calls of a rewrite of an entry: none in a dry run, else one for the pair that
  matches its uid and one for the pair that matches its gid.
\<close>

definition calls_of :: "config \<Rightarrow> bool \<Rightarrow> string \<Rightarrow> stat \<Rightarrow> event list" where
  "calls_of cfg lnk path st =
     (if dryrun cfg then []
      else (case map_of (begin_uidpair cfg) (st_uid st) of
              None \<Rightarrow> []
            | Some newuid \<Rightarrow> [call_event lnk path newuid (- 1)]) @
           (case map_of (begin_gidpair cfg) (st_gid st) of
              None \<Rightarrow> []
            | Some newgid \<Rightarrow> [call_event lnk path (- 1) newgid]))"


text \<open>The old ids of both lists are distinct, as \<open>uid_list\<close> and \<open>gid_list\<close> leave them.\<close>

definition distinct_olds :: "config \<Rightarrow> bool" where
  "distinct_olds cfg \<longleftrightarrow> distinct (map fst (begin_uidpair cfg)) \<and> distinct (map fst (begin_gidpair cfg))"




text \<open>
  Two states of a file system with the same names, the same grants, and inodes of the
  same kinds and link counts: a rewrite changes owners and groups only.
\<close>

definition same_shape :: "filesys \<Rightarrow> filesys \<Rightarrow> bool" where
  "same_shape fsy fsy' \<longleftrightarrow>
     dentry fsy' = dentry fsy \<and> may_chown fsy' = may_chown fsy \<and>
     (\<forall>k. map_option i_mode (inode_of fsy' k) = map_option i_mode (inode_of fsy k) \<and>
          map_option i_nlink (inode_of fsy' k) = map_option i_nlink (inode_of fsy k))"


text \<open>
  The scan with the hash table replaced by the set of pairs it stores: the file
  system, the set of hard links seen, and the trace.
\<close>

definition seen_child ::
  "config \<Rightarrow> string \<Rightarrow> filesys \<times> (nat \<times> nat) set \<times> event list
     \<Rightarrow> filesys \<times> (nat \<times> nat) set \<times> event list" where
  "seen_child cfg path a =
     (case a of (fsy, S, tr) \<Rightarrow>
        (case lstat fsy path of
           None \<Rightarrow> (fsy, S, tr @ [Log WARNING path])
         | Some st \<Rightarrow>
             (case st_mode st of
                S_IFREG \<Rightarrow>
                  if st_nlink st > 1 \<and> (st_ino st, st_dev st) \<in> S then (fsy, S, tr)
                  else (case rewrite_ids cfg False ''FILE'' path st (fsy, tr) of
                          (fsy', tr') \<Rightarrow>
                            (fsy', (if st_nlink st > 1 then insert (st_ino st, st_dev st) S else S), tr'))
              | S_IFLNK \<Rightarrow>
                  (case rewrite_ids cfg True ''DIRECTORY'' path st (fsy, tr) of
                     (fsy', tr') \<Rightarrow> (fsy', S, tr'))
              | S_IFDIR \<Rightarrow>
                  (case rewrite_ids cfg False ''DIRECTORY'' path st (fsy, tr) of
                     (fsy', tr') \<Rightarrow> (fsy', S, tr'))
              | S_IFOTHER \<Rightarrow> (fsy, S, tr))))"

definition seen_entry ::
  "config \<Rightarrow> queue_element \<times> string \<Rightarrow> filesys \<times> (nat \<times> nat) set \<times> event list
     \<Rightarrow> filesys \<times> (nat \<times> nat) set \<times> event list" where
  "seen_entry cfg e a =
     (if snd e \<noteq> ''.'' \<and> snd e \<noteq> ''..'' \<and> snd e \<notin> set (begin_exclude_file cfg)
      then seen_child cfg (name (fst e) @ ''/'' @ snd e) a
      else a)"

definition seen_run ::
  "config \<Rightarrow> (queue_element \<times> string) list \<Rightarrow> filesys \<times> (nat \<times> nat) set \<times> event list
     \<Rightarrow> filesys \<times> (nat \<times> nat) set \<times> event list" where
  "seen_run cfg es a = fold (seen_entry cfg) es a"

definition abstraction :: "scan \<Rightarrow> filesys \<times> (nat \<times> nat) set \<times> event list" where
  "abstraction sc = (fsys sc, contents (nlinks sc), out sc)"





subsection \<open>The pool\<close>

definition root_element :: "string \<Rightarrow> queue_element" where
  "root_element dirpath = \<lparr>name = dirpath, dirpos = 0, directsubdirs = 0, fs = dirpath\<rparr>"



subsection \<open>Concrete states\<close>

definition qa :: queue_element where
  "qa = \<lparr>name = ''/a'', dirpos = 0, directsubdirs = 0, fs = ''/a''\<rparr>"

definition qb :: queue_element where
  "qb = \<lparr>name = ''/b'', dirpos = 0, directsubdirs = 0, fs = ''/b''\<rparr>"

definition sched_of :: "real \<Rightarrow> queue_element list \<Rightarrow> real \<Rightarrow> queue_element list \<Rightarrow> int \<Rightarrow> sched" where
  "sched_of fsp fq ssp sq c =
     \<lparr>fast_anchor = \<lparr>speed = fsp, elems = fq\<rparr>, slow_anchor = \<lparr>speed = ssp, elems = sq\<rparr>,
      fast_nodes_befor_next_slow_node = c, busy_count = 0, notfinished = True\<rparr>"



text \<open>
  A small tree: the directory \<open>/a\<close> holds the hard links \<open>f\<close> and \<open>g\<close> to one regular
  file, the symbolic link \<open>l\<close>, the regular file \<open>h\<close> and the directory \<open>d\<close>. Every
  inode belongs to user 1000 and group 1000, and every \<open>chown\<close> is granted.
\<close>

definition demo_fs :: filesys where
  "demo_fs =
     \<lparr>dentry = (\<lambda>p. None)(''/a'' := Some (1, 0), ''/a/f'' := Some (2, 0), ''/a/g'' := Some (2, 0),
                 ''/a/l'' := Some (3, 0), ''/a/h'' := Some (4, 0), ''/a/d'' := Some (5, 0)),
      inode_of = (\<lambda>k. None)
                ((1, 0) := Some \<lparr>i_mode = S_IFDIR, i_nlink = 3, i_uid = 1000, i_gid = 1000\<rparr>,
                 (2, 0) := Some \<lparr>i_mode = S_IFREG, i_nlink = 2, i_uid = 1000, i_gid = 1000\<rparr>,
                 (3, 0) := Some \<lparr>i_mode = S_IFLNK, i_nlink = 1, i_uid = 1000, i_gid = 1000\<rparr>,
                 (4, 0) := Some \<lparr>i_mode = S_IFREG, i_nlink = 1, i_uid = 1000, i_gid = 1000\<rparr>,
                 (5, 0) := Some \<lparr>i_mode = S_IFDIR, i_nlink = 2, i_uid = 1000, i_gid = 1000\<rparr>),
      may_chown = (\<lambda>k owner grp. True)\<rparr>"



text \<open>
  Two pairs that match the ids of the small tree, and the entries of \<open>/a\<close> as
  \<open>readdir\<close> may give them; \<open>x\<close> is excluded.
\<close>

definition demo_cfg :: "bool \<Rightarrow> config" where
  "demo_cfg dry =
     \<lparr>dryrun = dry, begin_uidpair = [(1000, 2000)], begin_gidpair = [(1000, 3000)],
      begin_exclude_file = [''x'']\<rparr>"

definition demo_entries :: "(queue_element \<times> string) list" where
  "demo_entries =
     [(root_element ''/a'', ''.''), (root_element ''/a'', ''..''), (root_element ''/a'', ''f''),
      (root_element ''/a'', ''x''), (root_element ''/a'', ''g''), (root_element ''/a'', ''l'')]"



section \<open>The hash table keeps what it was given\<close>

lemma chain_lookup_None: "chain_lookup None tab i d = Some False"
  by (subst chain_lookup.simps) simp

lemma chain_lookup_Some:
  "chain_lookup (Some k) tab i d =
     (if k < length tab
      then (case tab ! k of
              None \<Rightarrow> None
            | Some e \<Rightarrow> if ino e = i \<and> dev e = d then Some True else chain_lookup (c_link e) tab i d)
      else None)"
  by (subst chain_lookup.simps) simp

lemma last_in_cong:
  "(\<And>j. j < n \<Longrightarrow> pair_at tab' j = pair_at tab j) \<Longrightarrow> last_in tab' m b n p = last_in tab m b n p"
  by (auto simp: last_in_def split: option.splits)

lemma chain_lookup_correct:
  assumes init: "\<And>k. k < N \<Longrightarrow> k < length tab \<and> tab ! k \<noteq> None"
    and links: "\<And>k. k < N \<Longrightarrow> last_in tab m (fst (pair_at tab k) mod m) k (link_at tab k)"
  shows "n \<le> N \<Longrightarrow> last_in tab m (i mod m) n p \<Longrightarrow>
         chain_lookup p tab i d = Some (\<exists>j<n. pair_at tab j = (i, d))"
proof (induction n arbitrary: p rule: less_induct)
  case (less n)
  show ?case
  proof (cases p)
    case None
    with less.prems have "\<forall>j<n. fst (pair_at tab j) mod m \<noteq> i mod m"
      by (simp add: last_in_def)
    then have "\<not> (\<exists>j<n. pair_at tab j = (i, d))"
      by auto
    with None show ?thesis
      by (simp add: chain_lookup_None)
  next
    case (Some h)
    with less.prems have h: "h < n" "fst (pair_at tab h) mod m = i mod m"
      and gap: "\<forall>j. h < j \<and> j < n \<longrightarrow> fst (pair_at tab j) mod m \<noteq> i mod m"
      by (simp_all add: last_in_def)
    from h less.prems have hN: "h < N" by simp
    from init [OF hN] obtain e where e: "h < length tab" "tab ! h = Some e"
      by auto
    show ?thesis
    proof (cases "ino e = i \<and> dev e = d")
      case True
      with e have "pair_at tab h = (i, d)" by (simp add: pair_at_def)
      with h have "\<exists>j<n. pair_at tab j = (i, d)" by blast
      with Some e True show ?thesis
        by (simp add: chain_lookup_Some)
    next
      case False
      have lk: "last_in tab m (i mod m) h (c_link e)"
        using links [OF hN] h e by (simp add: link_at_def)
      have rec: "chain_lookup (c_link e) tab i d = Some (\<exists>j<h. pair_at tab j = (i, d))"
        using less.IH [OF h(1) _ lk] hN by simp
      have nh: "pair_at tab h \<noteq> (i, d)"
        using False e by (auto simp: pair_at_def)
      have "(\<exists>j<n. pair_at tab j = (i, d)) \<longleftrightarrow> (\<exists>j<h. pair_at tab j = (i, d))"
      proof
        assume "\<exists>j<n. pair_at tab j = (i, d)"
        then obtain j where j: "j < n" "pair_at tab j = (i, d)" by blast
        then have "fst (pair_at tab j) mod m = i mod m" by simp
        with gap j have "\<not> h < j" by blast
        moreover from nh j have "j \<noteq> h" by auto
        ultimately have "j < h" by simp
        with j show "\<exists>j<h. pair_at tab j = (i, d)" by blast
      next
        assume "\<exists>j<h. pair_at tab j = (i, d)"
        with h show "\<exists>j<n. pair_at tab j = (i, d)" by (meson less_trans)
      qed
      with Some e False rec show ?thesis
        by (auto simp: chain_lookup_Some)
    qed
  qed
qed

lemma contents_iff: "(i, d) \<in> contents ht \<longleftrightarrow> (\<exists>j<first_free ht. pair_at (het_tab ht) j = (i, d))"
  by (force simp: contents_def image_iff)

lemma h_ins_lookup:
  assumes "hinv_gen ht N"
  shows "chain_lookup (hash ht ! (i mod mod_h ht)) (het_tab ht) i d = Some ((i, d) \<in> contents ht)"
proof -
  from assms have m: "0 < mod_h ht" and len: "length (het_tab ht) = het_tab_size ht"
    and ff: "first_free ht \<le> N" "N \<le> het_tab_size ht"
    and init: "\<forall>k<N. het_tab ht ! k \<noteq> None"
    and heads: "\<forall>b<mod_h ht. last_in (het_tab ht) (mod_h ht) b (first_free ht) (hash ht ! b)"
    and links: "\<forall>k<first_free ht.
        last_in (het_tab ht) (mod_h ht) (fst (pair_at (het_tab ht) k) mod mod_h ht) k (link_at (het_tab ht) k)"
    by (simp_all add: hinv_gen_def)
  have 1: "\<And>k. k < first_free ht \<Longrightarrow> k < length (het_tab ht) \<and> het_tab ht ! k \<noteq> None"
    using len ff init by simp
  have 2: "\<And>k. k < first_free ht \<Longrightarrow>
      last_in (het_tab ht) (mod_h ht) (fst (pair_at (het_tab ht) k) mod mod_h ht) k (link_at (het_tab ht) k)"
    using links by simp
  have 3: "last_in (het_tab ht) (mod_h ht) (i mod mod_h ht) (first_free ht) (hash ht ! (i mod mod_h ht))"
    using heads m by simp
  show ?thesis
    using chain_lookup_correct [of "first_free ht" "het_tab ht" "mod_h ht" "first_free ht" i _ d, OF 1 2 _ 3]
    by (simp add: contents_iff)
qed

lemma h_ins_known:
  assumes "hinv_gen ht N" and "(i, d) \<in> contents ht"
  shows "h_ins ht i d = Some (True, ht)"
  using assms h_ins_lookup [OF assms(1), of i d]
  by (simp add: h_ins_def hinv_gen_def)

lemma h_ins_fresh:
  assumes "hinv_gen ht N" and "(i, d) \<notin> contents ht" and "first_free ht < het_tab_size ht"
  shows "h_ins ht i d = Some (False, h_add ht i d)"
  using assms h_ins_lookup [OF assms(1), of i d]
  by (simp add: h_ins_def hinv_gen_def h_add_def)

lemma pair_at_h_add:
  assumes "first_free ht < length (het_tab ht)"
  shows "pair_at (het_tab (h_add ht i d)) k = (if k = first_free ht then (i, d) else pair_at (het_tab ht) k)"
  using assms by (simp add: h_add_def pair_at_def nth_list_update)

lemma link_at_h_add:
  assumes "first_free ht < length (het_tab ht)"
  shows "link_at (het_tab (h_add ht i d)) k =
           (if k = first_free ht then hash ht ! (i mod mod_h ht) else link_at (het_tab ht) k)"
  using assms by (simp add: h_add_def link_at_def nth_list_update)

lemma h_add_fields:
  "mod_h (h_add ht i d) = mod_h ht"
  "het_tab_size (h_add ht i d) = het_tab_size ht"
  "length (het_tab (h_add ht i d)) = length (het_tab ht)"
  "length (hash (h_add ht i d)) = length (hash ht)"
  by (simp_all add: h_add_def)

lemma h_add_first_free:
  "first_free ht + 1 < 2 ^ 32 \<Longrightarrow> first_free (h_add ht i d) = first_free ht + 1"
  by (simp add: h_add_def)

lemma last_in_step_other:
  assumes "last_in tab m b n p" and "\<And>j. j < n \<Longrightarrow> pair_at tab' j = pair_at tab j"
    and "fst (pair_at tab' n) mod m \<noteq> b"
  shows "last_in tab' m b (Suc n) p"
  using assms by (auto simp: last_in_def less_Suc_eq split: option.splits)

lemma last_in_step_new:
  assumes "fst (pair_at tab' n) mod m = b"
  shows "last_in tab' m b (Suc n) (Some n)"
  using assms by (auto simp: last_in_def)

lemma hinv_gen_h_add:
  assumes inv: "hinv_gen ht N" and fresh: "(i, d) \<notin> contents ht"
    and room: "first_free ht < het_tab_size ht" and nowrap: "first_free ht + 1 < 2 ^ 32"
    and same: "first_free ht < N \<Longrightarrow> pair_at (het_tab ht) (first_free ht) = (i, d)"
  shows "hinv_gen (h_add ht i d) (max N (first_free ht + 1))"
proof -
  let ?ht = "h_add ht i d" and ?f = "first_free ht" and ?m = "mod_h ht"
  let ?tab = "het_tab ht" and ?tab' = "het_tab (h_add ht i d)"
  from inv have m: "0 < ?m" and lh: "length (hash ht) = ?m" and len: "length ?tab = het_tab_size ht"
    and ff: "?f \<le> N" "N \<le> het_tab_size ht"
    and init: "\<forall>k<N. ?tab ! k \<noteq> None"
    and inj: "inj_on (pair_at ?tab) {..<N}"
    and heads: "\<forall>b<?m. last_in ?tab ?m b ?f (hash ht ! b)"
    and links: "\<forall>k<?f. last_in ?tab ?m (fst (pair_at ?tab k) mod ?m) k (link_at ?tab k)"
    by (simp_all add: hinv_gen_def)
  have flen: "?f < length ?tab" using room len by simp
  have pa: "\<And>k. pair_at ?tab' k = (if k = ?f then (i, d) else pair_at ?tab k)"
    using pair_at_h_add [OF flen] by simp
  have la: "\<And>k. link_at ?tab' k = (if k = ?f then hash ht ! (i mod ?m) else link_at ?tab k)"
    using link_at_h_add [OF flen] by simp
  have f': "first_free ?ht = Suc ?f" using h_add_first_free [OF nowrap] by simp
  have c1: "0 < mod_h ?ht" "length (hash ?ht) = mod_h ?ht" "length ?tab' = het_tab_size ?ht"
    using m lh len by (simp_all add: h_add_fields)
  have c2: "first_free ?ht \<le> max N (?f + 1)" "max N (?f + 1) \<le> het_tab_size ?ht"
    using f' ff room by (simp_all add: h_add_fields)
  have c3: "\<forall>k<max N (?f + 1). ?tab' ! k \<noteq> None"
  proof (intro allI impI)
    fix k assume k: "k < max N (?f + 1)"
    show "?tab' ! k \<noteq> None"
    proof (cases "k = ?f")
      case True
      then show ?thesis using flen by (simp add: h_add_def)
    next
      case False
      with k ff have "k < N" by (auto simp: max_def split: if_splits)
      with init False show ?thesis by (simp add: h_add_def)
    qed
  qed
  have c4: "inj_on (pair_at ?tab') {..<max N (?f + 1)}"
  proof (cases "?f < N")
    case True
    then have eq: "\<And>k. pair_at ?tab' k = pair_at ?tab k"
      using pa same by simp
    from True have "max N (?f + 1) = N" by simp
    with inj eq show ?thesis by (simp add: inj_on_def)
  next
    case False
    with ff have fN: "?f = N" by simp
    then have mx: "max N (?f + 1) = Suc N" by simp
    have notin: "\<forall>j<N. pair_at ?tab j \<noteq> (i, d)"
      using fresh fN by (auto simp: contents_iff)
    show ?thesis
      unfolding mx inj_on_def
    proof (intro ballI impI)
      fix x y assume x: "x \<in> {..<Suc N}" and y: "y \<in> {..<Suc N}"
        and e: "pair_at ?tab' x = pair_at ?tab' y"
      show "x = y"
      proof (cases "x = N")
        case True
        show ?thesis
        proof (rule ccontr)
          assume "x \<noteq> y"
          with True y have "y < N" by simp
          with e True fN notin show False by (auto simp: pa)
        qed
      next
        case xf: False
        with x have xN: "x < N" by simp
        show ?thesis
        proof (cases "y = N")
          case True
          with e xN fN notin show ?thesis by (auto simp: pa)
        next
          case False
          with y have "y < N" by simp
          with xN e fN inj show ?thesis by (simp add: pa inj_on_def)
        qed
      qed
    qed
  qed
  have old: "\<And>j. j < ?f \<Longrightarrow> pair_at ?tab' j = pair_at ?tab j"
    by (simp add: pa)
  have c5: "\<forall>b<mod_h ?ht. last_in ?tab' (mod_h ?ht) b (first_free ?ht) (hash ?ht ! b)"
  proof (intro allI impI)
    fix b assume "b < mod_h ?ht"
    then have b: "b < ?m" by (simp add: h_add_fields)
    show "last_in ?tab' (mod_h ?ht) b (first_free ?ht) (hash ?ht ! b)"
    proof (cases "b = i mod ?m")
      case True
      then have "hash ?ht ! b = Some ?f" using b lh by (simp add: h_add_def)
      moreover have "last_in ?tab' ?m b (Suc ?f) (Some ?f)"
        by (rule last_in_step_new) (simp add: pa True)
      ultimately show ?thesis by (simp add: f' h_add_fields)
    next
      case False
      then have "hash ?ht ! b = hash ht ! b" by (simp add: h_add_def)
      moreover have "last_in ?tab' ?m b (Suc ?f) (hash ht ! b)"
      proof (rule last_in_step_other)
        show "last_in ?tab ?m b ?f (hash ht ! b)" using heads b by simp
        show "\<And>j. j < ?f \<Longrightarrow> pair_at ?tab' j = pair_at ?tab j" by (rule old)
        show "fst (pair_at ?tab' ?f) mod ?m \<noteq> b" using False by (simp add: pa)
      qed
      ultimately show ?thesis by (simp add: f' h_add_fields)
    qed
  qed
  have c6: "\<forall>k<first_free ?ht.
      last_in ?tab' (mod_h ?ht) (fst (pair_at ?tab' k) mod mod_h ?ht) k (link_at ?tab' k)"
  proof (intro allI impI)
    fix k assume "k < first_free ?ht"
    then have k: "k \<le> ?f" by (simp add: f')
    have cong: "\<And>b p. last_in ?tab' ?m b k p = last_in ?tab ?m b k p"
      by (rule last_in_cong) (use k in \<open>simp add: pa\<close>)
    show "last_in ?tab' (mod_h ?ht) (fst (pair_at ?tab' k) mod mod_h ?ht) k (link_at ?tab' k)"
    proof (cases "k = ?f")
      case True
      have "last_in ?tab ?m (i mod ?m) k (hash ht ! (i mod ?m))"
        using heads m True by simp
      then have "last_in ?tab' ?m (i mod ?m) k (hash ht ! (i mod ?m))"
        by (simp only: cong)
      with True show ?thesis by (simp add: pa la h_add_fields)
    next
      case False
      with k have "k < ?f" by simp
      with links have "last_in ?tab ?m (fst (pair_at ?tab k) mod ?m) k (link_at ?tab k)"
        by simp
      then have "last_in ?tab' ?m (fst (pair_at ?tab k) mod ?m) k (link_at ?tab k)"
        by (simp only: cong)
      with False show ?thesis by (simp add: pa la h_add_fields)
    qed
  qed
  show ?thesis
    unfolding hinv_gen_def using c1 c2 c3 c4 c5 c6 by blast
qed

lemma contents_h_add:
  assumes "first_free ht < length (het_tab ht)" and "first_free ht + 1 < 2 ^ 32"
  shows "contents (h_add ht i d) = insert (i, d) (contents ht)"
proof -
  have "contents (h_add ht i d) = pair_at (het_tab (h_add ht i d)) ` {..<Suc (first_free ht)}"
    using h_add_first_free [OF assms(2)] by (simp add: contents_def)
  also have "\<dots> = insert (i, d) (pair_at (het_tab ht) ` {..<first_free ht})"
    by (auto simp: pair_at_h_add [OF assms(1)] lessThan_Suc image_iff)
  finally show ?thesis by (simp add: contents_def)
qed

lemma rehash_correct:
  assumes "N < 2 ^ 32"
  shows "hinv_gen ht N \<Longrightarrow> first_free ht + n = N \<Longrightarrow>
         \<exists>ht'. rehash n (first_free ht) ht = Some ht' \<and> hinv_gen ht' N \<and> first_free ht' = N \<and>
               (\<forall>j<N. pair_at (het_tab ht') j = pair_at (het_tab ht) j) \<and>
               mod_h ht' = mod_h ht \<and> het_tab_size ht' = het_tab_size ht"
proof (induction n arbitrary: ht)
  case 0
  then show ?case by simp
next
  case (Suc n)
  let ?f = "first_free ht" and ?tab = "het_tab ht"
  from Suc.prems have fN: "?f < N" by simp
  from Suc.prems(1) have len: "length ?tab = het_tab_size ht" and N: "N \<le> het_tab_size ht"
    and init: "\<forall>k<N. ?tab ! k \<noteq> None" and inj: "inj_on (pair_at ?tab) {..<N}"
    by (simp_all add: hinv_gen_def)
  from fN N len have flen: "?f < length ?tab" by simp
  from init fN obtain e where e: "?tab ! ?f = Some e" by auto
  then have pe: "pair_at ?tab ?f = (ino e, dev e)" by (simp add: pair_at_def)
  have fresh: "(ino e, dev e) \<notin> contents ht"
  proof
    assume "(ino e, dev e) \<in> contents ht"
    then obtain j where j: "j < ?f" "pair_at ?tab j = (ino e, dev e)"
      by (auto simp: contents_iff)
    with pe fN inj have "j = ?f" by (simp add: inj_on_def)
    with j show False by simp
  qed
  have room: "?f < het_tab_size ht" using fN N by simp
  have nowrap: "?f + 1 < 2 ^ 32" using fN assms by simp
  let ?ht = "h_add ht (ino e) (dev e)"
  have ins: "h_ins ht (ino e) (dev e) = Some (False, ?ht)"
    by (rule h_ins_fresh [OF Suc.prems(1) fresh room])
  have "hinv_gen ?ht (max N (?f + 1))"
    by (rule hinv_gen_h_add [OF Suc.prems(1) fresh room nowrap]) (rule pe)
  moreover have "max N (?f + 1) = N" using fN by simp
  ultimately have inv': "hinv_gen ?ht N" by simp
  have f': "first_free ?ht = Suc ?f" using h_add_first_free [OF nowrap] by simp
  with Suc.prems have "first_free ?ht + n = N" by simp
  from Suc.IH [OF inv' this] obtain ht' where
    r: "rehash n (first_free ?ht) ?ht = Some ht'" and inv'': "hinv_gen ht' N" and ff: "first_free ht' = N"
    and pairs: "\<forall>j<N. pair_at (het_tab ht') j = pair_at (het_tab ?ht) j"
    and sz: "mod_h ht' = mod_h ?ht" "het_tab_size ht' = het_tab_size ?ht"
    by blast
  have "rehash (Suc n) ?f ht = Some ht'"
    using flen e ins r f' by simp
  moreover have "\<forall>j<N. pair_at (het_tab ht') j = pair_at ?tab j"
    using pairs pe by (simp add: pair_at_h_add [OF flen])
  ultimately show ?case
    using inv'' ff sz by (simp add: h_add_fields)
qed

lemma h_mins_unfold:
  "h_mins ht i d =
     (if first_free ht \<ge> het_tab_size ht
      then (case rehash (first_free ht) 0 (h_grow ht) of None \<Rightarrow> None | Some ht2 \<Rightarrow> h_ins ht2 i d)
      else h_ins ht i d)"
  by (simp add: h_mins_def h_grow_def Let_def)

lemma h_grow_fields:
  assumes "2 * mod_h ht < 2 ^ 32" and "2 * het_tab_size ht < 2 ^ 32"
  shows "mod_h (h_grow ht) = 2 * mod_h ht" "het_tab_size (h_grow ht) = 2 * het_tab_size ht"
    "first_free (h_grow ht) = 0" "hash (h_grow ht) = replicate (2 * mod_h ht) None"
    "het_tab (h_grow ht) = realloc_tab (het_tab ht) (2 * het_tab_size ht)"
  using assms by (simp_all add: h_grow_def h_reset_def)

lemma pair_at_realloc:
  "k < length tab \<Longrightarrow> length tab \<le> n \<Longrightarrow> pair_at (realloc_tab tab n) k = pair_at tab k"
  by (simp add: pair_at_def realloc_tab_def nth_append)

lemma nth_realloc:
  "k < length tab \<Longrightarrow> length tab \<le> n \<Longrightarrow> realloc_tab tab n ! k = tab ! k"
  by (simp add: realloc_tab_def nth_append)

lemma hinv_gen_h_grow:
  assumes inv: "hinv ht" and full: "het_tab_size ht \<le> first_free ht"
    and b1: "2 * mod_h ht < 2 ^ 32" and b2: "2 * het_tab_size ht < 2 ^ 32"
  shows "hinv_gen (h_grow ht) (first_free ht)"
proof -
  let ?N = "first_free ht"
  from inv have m: "0 < mod_h ht" and len: "length (het_tab ht) = het_tab_size ht"
    and N: "?N \<le> het_tab_size ht"
    and init: "\<forall>k<?N. het_tab ht ! k \<noteq> None"
    and inj: "inj_on (pair_at (het_tab ht)) {..<?N}"
    by (simp_all add: hinv_def hinv_gen_def)
  note g = h_grow_fields [OF b1 b2]
  have pa: "\<And>k. k < ?N \<Longrightarrow> pair_at (het_tab (h_grow ht)) k = pair_at (het_tab ht) k"
    using N len by (simp add: g pair_at_realloc)
  have c1: "0 < mod_h (h_grow ht)" "length (hash (h_grow ht)) = mod_h (h_grow ht)"
    "length (het_tab (h_grow ht)) = het_tab_size (h_grow ht)"
    using m len by (simp_all add: g realloc_tab_def)
  have c2: "first_free (h_grow ht) \<le> ?N" "?N \<le> het_tab_size (h_grow ht)"
    using N by (simp_all add: g)
  have c3: "\<forall>k<?N. het_tab (h_grow ht) ! k \<noteq> None"
    using init N len by (simp add: g nth_realloc)
  have c4: "inj_on (pair_at (het_tab (h_grow ht))) {..<?N}"
    using inj pa by (simp add: inj_on_def)
  have c5: "\<forall>b<mod_h (h_grow ht).
      last_in (het_tab (h_grow ht)) (mod_h (h_grow ht)) b (first_free (h_grow ht)) (hash (h_grow ht) ! b)"
    by (simp add: g last_in_def)
  have c6: "\<forall>k<first_free (h_grow ht).
      last_in (het_tab (h_grow ht)) (mod_h (h_grow ht))
        (fst (pair_at (het_tab (h_grow ht)) k) mod mod_h (h_grow ht)) k (link_at (het_tab (h_grow ht)) k)"
    by (simp add: g)
  show ?thesis
    unfolding hinv_gen_def using c1 c2 c3 c4 c5 c6 by blast
qed

lemma h_ins_hwf:
  assumes inv: "hinv ht" and room: "first_free ht < het_tab_size ht" and nowrap: "first_free ht + 1 < 2 ^ 32"
  shows "\<exists>ht'. h_ins ht i d = Some ((i, d) \<in> contents ht, ht') \<and> hinv ht' \<and>
               contents ht' = insert (i, d) (contents ht) \<and>
               mod_h ht' = mod_h ht \<and> het_tab_size ht' = het_tab_size ht \<and>
               first_free ht' \<le> first_free ht + 1"
proof (cases "(i, d) \<in> contents ht")
  case True
  from inv have "hinv_gen ht (first_free ht)" by (simp add: hinv_def)
  from h_ins_known [OF this True] True inv show ?thesis
    by (simp add: insert_absorb)
next
  case False
  from inv have g: "hinv_gen ht (first_free ht)" by (simp add: hinv_def)
  have len: "first_free ht < length (het_tab ht)"
    using g room by (simp add: hinv_gen_def)
  have "hinv_gen (h_add ht i d) (max (first_free ht) (first_free ht + 1))"
    by (rule hinv_gen_h_add [OF g False room nowrap]) simp
  then have "hinv (h_add ht i d)"
    using h_add_first_free [OF nowrap, of i d] by (simp add: hinv_def max_def)
  with h_ins_fresh [OF g False room] False contents_h_add [OF len nowrap, of i d]
    h_add_first_free [OF nowrap, of i d]
  show ?thesis by (simp add: h_add_fields)
qed

lemma h_mins_step:
  assumes wf: "hwf ht" and bound: "first_free ht < 2 ^ 30"
  shows "\<exists>ht'. h_mins ht i d = Some ((i, d) \<in> contents ht, ht') \<and> hwf ht' \<and>
               contents ht' = insert (i, d) (contents ht) \<and>
               first_free ht' \<le> first_free ht + 1 \<and>
               (if het_tab_size ht \<le> first_free ht
                then mod_h ht' = 2 * mod_h ht \<and> het_tab_size ht' = 2 * het_tab_size ht
                else mod_h ht' = mod_h ht \<and> het_tab_size ht' = het_tab_size ht)"
proof (cases "het_tab_size ht \<le> first_free ht")
  case False
  from wf have inv: "hinv ht" by (simp add: hwf_def)
  have room: "first_free ht < het_tab_size ht" using False by simp
  have nowrap: "first_free ht + 1 < 2 ^ 32" using bound by simp
  from h_ins_hwf [OF inv room nowrap, of i d] obtain ht' where
    "h_ins ht i d = Some ((i, d) \<in> contents ht, ht')" "hinv ht'"
    "contents ht' = insert (i, d) (contents ht)" "mod_h ht' = mod_h ht"
    "het_tab_size ht' = het_tab_size ht" "first_free ht' \<le> first_free ht + 1"
    by blast
  with False wf show ?thesis
    by (simp add: h_mins_unfold hwf_def)
next
  case True
  from wf have inv: "hinv ht" and pos: "0 < het_tab_size ht" and ratio: "mod_h ht \<le> 2 * het_tab_size ht"
    by (simp_all add: hwf_def)
  from inv have "first_free ht \<le> het_tab_size ht" by (simp add: hinv_def hinv_gen_def)
  with True have eq: "first_free ht = het_tab_size ht" by simp
  have b2: "2 * het_tab_size ht < 2 ^ 32" using eq bound by simp
  have b1: "2 * mod_h ht < 2 ^ 32" using ratio eq bound by simp
  note g = h_grow_fields [OF b1 b2]
  have N32: "first_free ht < 2 ^ 32" using bound by simp
  have gi: "hinv_gen (h_grow ht) (first_free ht)"
    by (rule hinv_gen_h_grow [OF inv True b1 b2])
  have "first_free (h_grow ht) + first_free ht = first_free ht" by (simp add: g)
  from rehash_correct [OF N32 gi this] obtain ht2 where
    r: "rehash (first_free ht) 0 (h_grow ht) = Some ht2"
    and inv2: "hinv_gen ht2 (first_free ht)" and ff2: "first_free ht2 = first_free ht"
    and pairs: "\<forall>j<first_free ht. pair_at (het_tab ht2) j = pair_at (het_tab (h_grow ht)) j"
    and sz: "mod_h ht2 = mod_h (h_grow ht)" "het_tab_size ht2 = het_tab_size (h_grow ht)"
    by (auto simp: g)
  have hinv2: "hinv ht2" using inv2 ff2 by (simp add: hinv_def)
  have len: "length (het_tab ht) = het_tab_size ht"
    using inv by (simp add: hinv_def hinv_gen_def)
  have c2: "contents ht2 = contents ht"
    using pairs ff2 eq len by (simp add: contents_def g pair_at_realloc)
  have room: "first_free ht2 < het_tab_size ht2" using ff2 sz eq pos by (simp add: g)
  have nowrap: "first_free ht2 + 1 < 2 ^ 32" using ff2 bound by simp
  from h_ins_hwf [OF hinv2 room nowrap, of i d] obtain ht' where
    "h_ins ht2 i d = Some ((i, d) \<in> contents ht2, ht')" "hinv ht'"
    "contents ht' = insert (i, d) (contents ht2)" "mod_h ht' = mod_h ht2"
    "het_tab_size ht' = het_tab_size ht2" "first_free ht' \<le> first_free ht2 + 1"
    by blast
  with True r c2 ff2 sz pos ratio show ?thesis
    by (simp add: h_mins_unfold hwf_def g)
qed

lemma hwf_h_init:
  assumes "0 < m" and "0 < n" and "m \<le> 2 * n"
  shows "hwf (h_init m n)" and "contents (h_init m n) = {}"
  using assms by (simp_all add: hwf_def hinv_def hinv_gen_def h_init_def h_reset_def last_in_def contents_def)

lemma h_mins_list_correct:
  "hwf ht \<Longrightarrow> first_free ht + length cs \<le> 2 ^ 30 \<Longrightarrow>
   \<exists>ht'. h_mins_list ht cs = Some (seen_before (contents ht) cs, ht') \<and> hwf ht' \<and>
         contents ht' = contents ht \<union> set cs"
proof (induction cs arbitrary: ht)
  case Nil
  then show ?case by simp
next
  case (Cons c cs)
  obtain i d where c: "c = (i, d)" by (cases c)
  from Cons.prems have b: "first_free ht < 2 ^ 30" by simp
  from h_mins_step [OF Cons.prems(1) b, of i d] obtain ht1 where
    s: "h_mins ht i d = Some ((i, d) \<in> contents ht, ht1)" and wf1: "hwf ht1"
    and c1: "contents ht1 = insert (i, d) (contents ht)" and f1: "first_free ht1 \<le> first_free ht + 1"
    by blast
  from f1 Cons.prems have "first_free ht1 + length cs \<le> 2 ^ 30" by simp
  from Cons.IH [OF wf1 this] obtain ht' where
    "h_mins_list ht1 cs = Some (seen_before (contents ht1) cs, ht')" "hwf ht'"
    "contents ht' = contents ht1 \<union> set cs"
    by blast
  with s c c1 show ?case by simp
qed

text \<open>
  Claim C10. On a well-formed table (as \<open>h_init\<close> makes it, and as every call leaves it)
  \<open>h_mins\<close> answers whether the pair is among the pairs stored, and stores it. When the
  arena is full (\<open>first_free \<ge> het_tab_size\<close>) the call doubles \<open>mod\<close> and
  \<open>het_tab_size\<close>, and the pairs stored before are all still stored afterwards. So the
  answers to a sequence of calls are those of a plain set of pairs, whatever the sizes
  of the table and wherever the doublings fall. The bounds keep the \<open>unsigned int\<close>
  fields from wrapping around: fewer than \<open>2 ^ 30\<close> pairs are stored.
\<close>

theorem membership_survives_growth:
  assumes "hwf ht" and "first_free ht + length cs \<le> 2 ^ 30" and "first_free ht < 2 ^ 30"
  shows "(\<exists>ht'. h_mins ht i d = Some ((i, d) \<in> contents ht, ht') \<and> hwf ht' \<and>
               contents ht' = insert (i, d) (contents ht) \<and>
               (if het_tab_size ht \<le> first_free ht
                then mod_h ht' = 2 * mod_h ht \<and> het_tab_size ht' = 2 * het_tab_size ht
                else mod_h ht' = mod_h ht \<and> het_tab_size ht' = het_tab_size ht)) \<and>
         (\<exists>ht'. h_mins_list ht cs = Some (seen_before (contents ht) cs, ht') \<and>
               contents ht' = contents ht \<union> set cs)"
proof -
  from h_mins_step [OF assms(1) assms(3), of i d] have 1:
    "\<exists>ht'. h_mins ht i d = Some ((i, d) \<in> contents ht, ht') \<and> hwf ht' \<and>
               contents ht' = insert (i, d) (contents ht) \<and>
               (if het_tab_size ht \<le> first_free ht
                then mod_h ht' = 2 * mod_h ht \<and> het_tab_size ht' = 2 * het_tab_size ht
                else mod_h ht' = mod_h ht \<and> het_tab_size ht' = het_tab_size ht)"
    by blast
  from h_mins_list_correct [OF assms(1) assms(2)] have 2:
    "\<exists>ht'. h_mins_list ht cs = Some (seen_before (contents ht) cs, ht') \<and>
               contents ht' = contents ht \<union> set cs"
    by blast
  from 1 2 show ?thesis by blast
qed

lemma h_init_fields:
  "first_free (h_init m n) = 0" "het_tab_size (h_init m n) = n" "mod_h (h_init m n) = m"
  by (simp_all add: h_init_def h_reset_def)

lemma hwf_small: "hwf (h_init 2 1)"
  by (rule hwf_h_init) simp_all

lemma hwf_start: "hwf (h_init INIT_MODULE INIT_TAB_SIZE)"
  by (rule hwf_h_init) (simp_all add: INIT_MODULE_def INIT_TAB_SIZE_def)

theorem membership_survives_growth_witness:
  "(\<exists>ht'. h_mins_list (h_init 2 1) [(5, 7), (6, 7), (8, 7), (6, 7)] =
     Some ([False, False, False, True], ht')) \<and>
   (\<exists>ht'. h_mins_list (h_init INIT_MODULE INIT_TAB_SIZE) [(5, 7), (6, 7), (8, 7), (6, 7)] =
     Some ([False, False, False, True], ht')) \<and>
   (\<exists>ht'. h_mins (h_init 2 1) 5 7 = Some (False, ht') \<and> mod_h ht' = 2 \<and> het_tab_size ht' = 1)"
proof -
  let ?cs = "[(5, 7), (6, 7), (8, 7), (6, 7)] :: (nat \<times> nat) list"
  have c1: "contents (h_init 2 1) = {}"
    by (rule hwf_h_init(2)) simp_all
  have c2: "contents (h_init INIT_MODULE INIT_TAB_SIZE) = {}"
    by (rule hwf_h_init(2)) (simp_all add: INIT_MODULE_def INIT_TAB_SIZE_def)
  have b1: "first_free (h_init 2 1) + length ?cs \<le> 2 ^ 30" "first_free (h_init 2 1) < 2 ^ 30"
    by (simp_all add: h_init_fields)
  have b2: "first_free (h_init INIT_MODULE INIT_TAB_SIZE) + length ?cs \<le> 2 ^ 30"
    "first_free (h_init INIT_MODULE INIT_TAB_SIZE) < 2 ^ 30"
    by (simp_all add: h_init_fields)
  note r1 = membership_survives_growth [OF hwf_small b1, of 5 7, unfolded c1 h_init_fields]
  note r2 = membership_survives_growth [OF hwf_start b2, of 5 7, unfolded c2]
  from r1 have "\<exists>ht'. h_mins_list (h_init 2 1) ?cs = Some ([False, False, False, True], ht')"
    by auto
  moreover from r2 have
    "\<exists>ht'. h_mins_list (h_init INIT_MODULE INIT_TAB_SIZE) ?cs = Some ([False, False, False, True], ht')"
    by auto
  moreover from r1 have
    "\<exists>ht'. h_mins (h_init 2 1) 5 7 = Some (False, ht') \<and> mod_h ht' = 2 \<and> het_tab_size ht' = 1"
    by auto
  ultimately show ?thesis by blast
qed

section \<open>Dispatch and the counter of fast elements\<close>

lemma deq_get_Cons: "elems a = qe # rest \<Longrightarrow> deq_get a = (Some qe, a\<lparr>elems := rest\<rparr>)"
  by (simp add: deq_get_def element_counter_def)

lemma deq_get_Nil: "elems a = [] \<Longrightarrow> deq_get a = (None, a)"
  by (simp add: deq_get_def element_counter_def)

lemma ceil_ratio_3_2: "ceil_ratio 3 2 = Some 2"
  by (simp add: ceil_ratio_def)

text \<open>
  Claim C3. In dual-queue mode, with a positive counter the worker takes the first
  element of the fast deque and the counter goes down by one, the slow deque staying as
  it is; only when the fast deque is empty does it take from the slow deque, and the
  counter is computed anew. With a counter of 0 it takes from the slow deque and the
  counter is computed anew; only when the slow deque is empty does it take from the
  fast deque, and the counter stays 0. (Where the new counter is undefined, so is the
  dispatch.)
\<close>

theorem dispatch_credit_rule:
  "(0 < fast_nodes_befor_next_slow_node s \<longrightarrow>
      (\<forall>qe rest. elems (fast_anchor s) = qe # rest \<longrightarrow>
         (\<exists>s'. dispatch True s = Some (Some qe, s') \<and>
               elems (fast_anchor s') = rest \<and>
               elems (slow_anchor s') = elems (slow_anchor s) \<and>
               fast_nodes_befor_next_slow_node s' = fast_nodes_befor_next_slow_node s - 1)) \<and>
      (\<forall>qe rest. elems (fast_anchor s) = [] \<and> elems (slow_anchor s) = qe # rest \<longrightarrow>
         (case ceil_ratio (speed (fast_anchor s)) (speed (slow_anchor s)) of
            None \<Rightarrow> dispatch True s = None
          | Some c \<Rightarrow>
              (\<exists>s'. dispatch True s = Some (Some qe, s') \<and>
                    elems (fast_anchor s') = [] \<and>
                    elems (slow_anchor s') = rest \<and>
                    fast_nodes_befor_next_slow_node s' = c)))) \<and>
   (fast_nodes_befor_next_slow_node s = 0 \<longrightarrow>
      (\<forall>qe rest. elems (slow_anchor s) = qe # rest \<longrightarrow>
         (case ceil_ratio (speed (fast_anchor s)) (speed (slow_anchor s)) of
            None \<Rightarrow> dispatch True s = None
          | Some c \<Rightarrow>
              (\<exists>s'. dispatch True s = Some (Some qe, s') \<and>
                    elems (fast_anchor s') = elems (fast_anchor s) \<and>
                    elems (slow_anchor s') = rest \<and>
                    fast_nodes_befor_next_slow_node s' = c))) \<and>
      (\<forall>qe rest. elems (slow_anchor s) = [] \<and> elems (fast_anchor s) = qe # rest \<longrightarrow>
         (\<exists>s'. dispatch True s = Some (Some qe, s') \<and>
               elems (fast_anchor s') = rest \<and>
               elems (slow_anchor s') = [] \<and>
               fast_nodes_befor_next_slow_node s' = 0)))"
  by (auto simp: dispatch_def take_element_def select_dual_def decay_speeds_def deq_get_Cons
      deq_get_Nil element_counter_def split: option.splits)

theorem dispatch_credit_rule_witness:
  "(\<exists>s'. dispatch True (sched_of 3 [qa] 2 [qb] 1) = Some (Some qa, s') \<and>
         fast_nodes_befor_next_slow_node s' = 0 \<and> elems (slow_anchor s') = [qb]) \<and>
   (\<exists>s'. dispatch True (sched_of 3 [] 2 [qb] 1) = Some (Some qb, s') \<and>
         fast_nodes_befor_next_slow_node s' = 2) \<and>
   (\<exists>s'. dispatch True (sched_of 3 [qa] 2 [qb] 0) = Some (Some qb, s') \<and>
         fast_nodes_befor_next_slow_node s' = 2 \<and> elems (fast_anchor s') = [qa]) \<and>
   (\<exists>s'. dispatch True (sched_of 3 [qa] 2 [] 0) = Some (Some qa, s') \<and>
         fast_nodes_befor_next_slow_node s' = 0)"
  using dispatch_credit_rule [of "sched_of 3 [qa] 2 [qb] 1"]
        dispatch_credit_rule [of "sched_of 3 [] 2 [qb] 1"]
        dispatch_credit_rule [of "sched_of 3 [qa] 2 [qb] 0"]
        dispatch_credit_rule [of "sched_of 3 [qa] 2 [] 0"]
  by (auto simp: sched_of_def ceil_ratio_3_2)




section \<open>The scan rate of a transfer\<close>




text \<open>
  A transfer follows at least one pass of the loop of \<open>process_tile\<close>, which counts the
  directory it opens; the rate it stores is then positive.
\<close>

lemma scan_rate_positive: "0 < ds \<Longrightarrow> 0 < scan_rate ds t1 t2"
  by (simp add: scan_rate_def Let_def)

section \<open>The cap on the number of threads\<close>

text \<open>
  Claim C8 fails where the requested number exceeds the number of file descriptors:
  with 100 descriptors and 200 threads requested, the subtraction of line 1683 wraps
  around, the test fails, and 200 threads are kept.
\<close>

theorem thread_cap_missed:
  "thread_option 100 200 = Some 200 \<and> \<not> unat (200 :: 64 word) + 5 \<le> unat (100 :: 32 word)"
  by (simp add: thread_option_def PTHREAD_THREADS_MAX_def OPENFILES_OFFSET_def)

text \<open>Where nothing wraps around, the cap is as claimed.\<close>

lemma thread_cap_in_range: "thread_option 100 98 = Some 95 \<and> thread_option 100 95 = Some 95"
  by (simp add: thread_option_def PTHREAD_THREADS_MAX_def OPENFILES_OFFSET_def)

lemma ucast_up: "unat (ucast (w :: 32 word) :: 64 word) = unat w"
proof -
  have "unat w < 2 ^ 32" using unsigned_less [of w] by simp
  then have "unat w < 2 ^ 64" by simp
  then show ?thesis by (simp add: unsigned_ucast_eq take_bit_nat_eq_self)
qed

lemma thread_cap_where_no_wrap:
  assumes "numthr \<le> PTHREAD_THREADS_MAX" and "unat numthr \<le> unat max_openfiles"
    and "5 \<le> unat max_openfiles"
  shows "\<exists>r. thread_option max_openfiles numthr = Some r \<and> unat r + 5 \<le> unat max_openfiles \<and>
           unat r = min (unat numthr) (unat max_openfiles - 5)"
proof -
  have a: "unat (ucast max_openfiles - numthr :: 64 word) = unat max_openfiles - unat numthr"
    using assms(2) by (simp add: unat_sub_if' ucast_up)
  have b: "unat (max_openfiles - 5) = unat max_openfiles - 5"
    using assms(3) by (simp add: unat_sub_if')
  have c: "unat (ucast (max_openfiles - 5) :: 64 word) = unat max_openfiles - 5"
    using b by (simp add: ucast_up)
  show ?thesis
    using assms a b c
    by (auto simp: thread_option_def OPENFILES_OFFSET_def word_less_nat_alt word_le_nat_alt not_less)
qed

section \<open>Seeding the fast deque\<close>

lemma seed_roots_acc:
  "seed_roots fsy roots (fast, tr) =
     (fast\<lparr>elems := elems fast @ map root_element (filter (\<lambda>p. lstat fsy p \<noteq> None) roots)\<rparr>,
      tr @ map (Log WARNING) (filter (\<lambda>p. lstat fsy p = None) roots))"
  by (induction roots arbitrary: fast tr) (auto simp: deq_put_def root_element_def split: option.splits)

lemma seed_roots_init:
  "seed_roots fsy roots (deq_init, []) =
     (\<lparr>speed = 0, elems = map root_element (filter (\<lambda>p. lstat fsy p \<noteq> None) roots)\<rparr>,
      map (Log WARNING) (filter (\<lambda>p. lstat fsy p = None) roots))"
  by (simp add: seed_roots_acc deq_init_def)

text \<open>
  Claim C9. Every root is passed to \<open>lstat\<close>; the fast deque receives, in order, the
  roots for which it succeeds, and each other root gives one log record at WARNING.
  When no root passes, \<open>main\<close> ends with an error message and no pool is started;
  otherwise the pool is started, every worker at the head of its loop, on the deque of
  the roots that passed.
\<close>

theorem roots_are_checked:
  "(case seed_roots fsy roots (deq_init, []) of
      (fast, tr) \<Rightarrow>
        elems fast = map root_element (filter (\<lambda>p. lstat fsy p \<noteq> None) roots) \<and>
        tr = map (Log WARNING) (filter (\<lambda>p. lstat fsy p = None) roots)) \<and>
   ((\<forall>p \<in> set roots. lstat fsy p = None) \<longrightarrow>
      main_start fsy numthr roots \<in>
        {Inl ''ERROR: No files systems to work on!'', Inl ''ERROR: No valid files systems to work on!''}) \<and>
   ((\<exists>p \<in> set roots. lstat fsy p \<noteq> None) \<longrightarrow>
      (\<exists>pl. main_start fsy numthr roots =
               Inr (pl, map (Log WARNING) (filter (\<lambda>p. lstat fsy p = None) roots)) \<and>
            workers pl = replicate numthr Checking \<and> notfinished (sch pl) \<and>
            elems (fast_anchor (sch pl)) = map root_element (filter (\<lambda>p. lstat fsy p \<noteq> None) roots) \<and>
            elems (slow_anchor (sch pl)) = []))"
proof (intro conjI impI)
  show "case seed_roots fsy roots (deq_init, []) of
      (fast, tr) \<Rightarrow>
        elems fast = map root_element (filter (\<lambda>p. lstat fsy p \<noteq> None) roots) \<and>
        tr = map (Log WARNING) (filter (\<lambda>p. lstat fsy p = None) roots)"
    by (simp add: seed_roots_init)
next
  assume "\<forall>p \<in> set roots. lstat fsy p = None"
  then have "filter (\<lambda>p. lstat fsy p \<noteq> None) roots = []"
    by (simp add: filter_empty_conv)
  then show "main_start fsy numthr roots \<in>
        {Inl ''ERROR: No files systems to work on!'', Inl ''ERROR: No valid files systems to work on!''}"
    by (simp add: main_start_def seed_roots_init)
next
  assume "\<exists>p \<in> set roots. lstat fsy p \<noteq> None"
  then have ne: "filter (\<lambda>p. lstat fsy p \<noteq> None) roots \<noteq> []" and r: "roots \<noteq> []"
    by (auto simp: filter_empty_conv)
  then show "\<exists>pl. main_start fsy numthr roots =
               Inr (pl, map (Log WARNING) (filter (\<lambda>p. lstat fsy p = None) roots)) \<and>
            workers pl = replicate numthr Checking \<and> notfinished (sch pl) \<and>
            elems (fast_anchor (sch pl)) = map root_element (filter (\<lambda>p. lstat fsy p \<noteq> None) roots) \<and>
            elems (slow_anchor (sch pl)) = []"
    by (simp add: main_start_def seed_roots_acc deq_init_def del: not_None_eq)
qed

lemma lstat_demo:
  "lstat demo_fs ''/a'' \<noteq> None" "lstat demo_fs ''/nowhere'' = None"
  by (simp_all add: lstat_def demo_fs_def)

theorem roots_are_checked_witness:
  "seed_roots demo_fs [''/nowhere'', ''/a''] (deq_init, []) =
     (\<lparr>speed = 0, elems = [root_element ''/a'']\<rparr>, [Log WARNING ''/nowhere'']) \<and>
   main_start demo_fs 2 [''/nowhere''] = Inl ''ERROR: No valid files systems to work on!'' \<and>
   (\<exists>pl. main_start demo_fs 2 [''/nowhere'', ''/a''] = Inr (pl, [Log WARNING ''/nowhere'']) \<and>
         workers pl = [Checking, Checking] \<and> elems (fast_anchor (sch pl)) = [root_element ''/a''])"
proof -
  note r1 = roots_are_checked [of demo_fs "[''/nowhere'', ''/a'']" 2]
  note r2 = roots_are_checked [of demo_fs "[''/nowhere'']" 2]
  from r1 have "seed_roots demo_fs [''/nowhere'', ''/a''] (deq_init, []) =
     (\<lparr>speed = 0, elems = [root_element ''/a'']\<rparr>, [Log WARNING ''/nowhere''])"
    by (simp add: lstat_demo seed_roots_acc deq_init_def del: not_None_eq seed_roots.simps)
  moreover from r2 have "main_start demo_fs 2 [''/nowhere''] = Inl ''ERROR: No valid files systems to work on!''"
    by (simp add: lstat_demo main_start_def)
  moreover from r1 have "\<exists>pl. main_start demo_fs 2 [''/nowhere'', ''/a''] = Inr (pl, [Log WARNING ''/nowhere'']) \<and>
         workers pl = [Checking, Checking] \<and> elems (fast_anchor (sch pl)) = [root_element ''/a'']"
    by (auto simp: lstat_demo eval_nat_numeral simp del: not_None_eq seed_roots.simps)
  ultimately show ?thesis by blast
qed

section \<open>The end of the scan\<close>


lemma count_le_length: "length (filter P xs) \<le> length xs"
  by simp






















section \<open>The rewrite of an entry\<close>

lemma sys_chown_lchown: "sys_chown lnk fsy path owner grp = lchown fsy path owner grp"
  by (simp add: sys_chown_def chown_def)

lemma is_call_call_event: "is_call (call_event lnk path owner grp)"
  by (simp add: call_event_def)

lemma event_path_call_event: "event_path (call_event lnk path owner grp) = path"
  by (simp add: call_event_def)

lemma uid_pass_dry:
  "uid_pass True lnk label path st ups (fsy, tr) =
     (fsy, tr @ (case map_of ups (st_uid st) of
                   None \<Rightarrow> []
                 | Some n \<Rightarrow> [Stdout path label Uid (st_uid st) n]))"
  by (induction ups) auto

lemma gid_pass_dry:
  "gid_pass True lnk label path st gps (fsy, tr) =
     (fsy, tr @ (case map_of gps (st_gid st) of
                   None \<Rightarrow> []
                 | Some n \<Rightarrow> [Stdout path label Gid (st_gid st) n]))"
  by (induction gps) auto

lemma rewrite_ids_dry:
  "dryrun cfg \<Longrightarrow> rewrite_ids cfg lnk label path st (fsy, tr) = (fsy, tr @ dry_lines cfg label path st)"
  by (simp add: rewrite_ids_def uid_pass_dry gid_pass_dry dry_lines_def)

lemma length_dry_lines:
  "length (dry_lines cfg label path st) =
     (if st_uid st \<in> fst ` set (begin_uidpair cfg) then 1 else 0) +
     (if st_gid st \<in> fst ` set (begin_gidpair cfg) then 1 else 0)"
proof -
  have u: "st_uid st \<in> fst ` set (begin_uidpair cfg) \<longleftrightarrow> map_of (begin_uidpair cfg) (st_uid st) \<noteq> None"
    by (simp add: map_of_eq_None_iff del: not_None_eq)
  have g: "st_gid st \<in> fst ` set (begin_gidpair cfg) \<longleftrightarrow> map_of (begin_gidpair cfg) (st_gid st) \<noteq> None"
    by (simp add: map_of_eq_None_iff del: not_None_eq)
  show ?thesis
    unfolding u g by (simp add: dry_lines_def split: option.splits)
qed

lemma no_call_dry_lines: "filter is_call (dry_lines cfg label path st) = []"
  by (simp add: dry_lines_def split: option.splits)

lemma uid_pass_no_match:
  "st_uid st \<notin> fst ` set ups \<Longrightarrow> uid_pass dr lnk label path st ups acc = acc"
  by (induction ups arbitrary: acc) (auto split: prod.splits)

lemma gid_pass_no_match:
  "st_gid st \<notin> fst ` set gps \<Longrightarrow> gid_pass dr lnk label path st gps acc = acc"
  by (induction gps arbitrary: acc) (auto split: prod.splits)

lemma uid_pass_real:
  "distinct (map fst ups) \<Longrightarrow>
   uid_pass False lnk label path st ups (fsy, tr) =
     (case map_of ups (st_uid st) of
        None \<Rightarrow> (fsy, tr)
      | Some n \<Rightarrow>
          (case lchown fsy path n (- 1) of
             Some fsy' \<Rightarrow> (fsy', tr @ [call_event lnk path n (- 1), Log INFO path])
           | None \<Rightarrow> (fsy, tr @ [call_event lnk path n (- 1), Log WARNING path])))"
proof (induction ups arbitrary: tr)
  case Nil
  then show ?case by simp
next
  case (Cons p ups)
  obtain old n where p: "p = (old, n)" by (cases p)
  show ?case
  proof (cases "old = st_uid st")
    case True
    with Cons.prems p have "st_uid st \<notin> fst ` set ups" by auto
    then have "\<And>acc. uid_pass False lnk label path st ups acc = acc"
      by (rule uid_pass_no_match)
    with True p show ?thesis
      by (simp add: sys_chown_lchown split: option.splits)
  next
    case False
    with Cons p show ?thesis by simp
  qed
qed

lemma gid_pass_real:
  "distinct (map fst gps) \<Longrightarrow>
   gid_pass False lnk label path st gps (fsy, tr) =
     (case map_of gps (st_gid st) of
        None \<Rightarrow> (fsy, tr)
      | Some n \<Rightarrow>
          (case lchown fsy path (- 1) n of
             Some fsy' \<Rightarrow> (fsy', tr @ [call_event lnk path (- 1) n, Log INFO path])
           | None \<Rightarrow> (fsy, tr @ [call_event lnk path (- 1) n, Log WARNING path])))"
proof (induction gps arbitrary: tr)
  case Nil
  then show ?case by simp
next
  case (Cons p gps)
  obtain old n where p: "p = (old, n)" by (cases p)
  show ?case
  proof (cases "old = st_gid st")
    case True
    with Cons.prems p have "st_gid st \<notin> fst ` set gps" by auto
    then have "\<And>acc. gid_pass False lnk label path st gps acc = acc"
      by (rule gid_pass_no_match)
    with True p show ?thesis
      by (simp add: sys_chown_lchown split: option.splits)
  next
    case False
    with Cons p show ?thesis by simp
  qed
qed

lemma lchown_at:
  assumes "dentry fsy path = Some k" and "inode_of fsy k = Some n"
  shows "lchown fsy path owner grp =
           (if may_chown fsy k owner grp
            then Some (fsy\<lparr>inode_of := (inode_of fsy)
                         (k := Some (n\<lparr>i_uid := (if owner = - 1 then i_uid n else owner),
                                       i_gid := (if grp = - 1 then i_gid n else grp)\<rparr>))\<rparr>)
            else None)"
  using assms by (simp add: lchown_def)

lemma lstat_at:
  assumes "dentry fsy path = Some k" and "inode_of fsy k = Some n"
  shows "lstat fsy path = Some \<lparr>st_mode = i_mode n, st_ino = fst k, st_dev = snd k, st_nlink = i_nlink n,
                               st_uid = i_uid n, st_gid = i_gid n\<rparr>"
  using assms by (simp add: lstat_def)

lemma lstat_SomeD:
  assumes "lstat fsy path = Some st"
  shows "\<exists>k n. dentry fsy path = Some k \<and> inode_of fsy k = Some n \<and> k = (st_ino st, st_dev st) \<and>
               st_mode st = i_mode n \<and> st_nlink st = i_nlink n \<and> st_uid st = i_uid n \<and> st_gid st = i_gid n"
  using assms by (auto simp: lstat_def split: option.splits)

section \<open>The scan and the set of hard links seen\<close>

lemma process_child_refines:
  assumes wf: "hwf (nlinks sc)" and bound: "first_free (nlinks sc) < 2 ^ 30"
  shows "\<exists>sc' new. process_child cfg w path sc = Some (sc', new) \<and>
           abstraction sc' = seen_child cfg path (abstraction sc) \<and>
           hwf (nlinks sc') \<and> first_free (nlinks sc') \<le> first_free (nlinks sc) + 1"
proof (cases "lstat (fsys sc) path")
  case None
  with wf show ?thesis
    by (simp add: process_child_def seen_child_def abstraction_def)
next
  case (Some st)
  show ?thesis
  proof (cases "st_mode st")
    case S_IFOTHER
    with Some wf show ?thesis
      by (simp add: process_child_def seen_child_def abstraction_def)
  next
    case S_IFLNK
    with Some wf show ?thesis
      by (simp add: process_child_def seen_child_def abstraction_def split: prod.splits)
  next
    case S_IFDIR
    with Some wf show ?thesis
      by (simp add: process_child_def seen_child_def abstraction_def split: prod.splits)
  next
    case S_IFREG
    show ?thesis
    proof (cases "st_nlink st > 1")
      case False
      with S_IFREG Some wf show ?thesis
        by (simp add: process_child_def seen_child_def abstraction_def split: prod.splits)
    next
      case True
      from h_mins_step [OF wf bound, of "st_ino st" "st_dev st"] obtain ht' where
        h: "h_mins (nlinks sc) (st_ino st) (st_dev st) = Some ((st_ino st, st_dev st) \<in> contents (nlinks sc), ht')"
        and wf': "hwf ht'" and c: "contents ht' = insert (st_ino st, st_dev st) (contents (nlinks sc))"
        and f: "first_free ht' \<le> first_free (nlinks sc) + 1"
        by blast
      show ?thesis
      proof (cases "(st_ino st, st_dev st) \<in> contents (nlinks sc)")
        case known: True
        with c have "contents ht' = contents (nlinks sc)" by auto
        with known True S_IFREG Some h wf' f show ?thesis
          by (simp add: process_child_def seen_child_def abstraction_def)
      next
        case False
        with True S_IFREG Some h wf' f c show ?thesis
          by (simp add: process_child_def seen_child_def abstraction_def split: prod.splits)
      qed
    qed
  qed
qed

lemma dir_entry_refines:
  assumes wf: "hwf (nlinks sc)" and bound: "first_free (nlinks sc) < 2 ^ 30"
  shows "\<exists>sc' new. dir_entry cfg w d sc = Some (sc', new) \<and>
           abstraction sc' = seen_entry cfg (w, d) (abstraction sc) \<and>
           hwf (nlinks sc') \<and> first_free (nlinks sc') \<le> first_free (nlinks sc) + 1"
proof (cases "d \<noteq> ''.'' \<and> d \<noteq> ''..'' \<and> d \<notin> set (begin_exclude_file cfg)")
  case True
  with process_child_refines [OF wf bound, of cfg w "name w @ ''/'' @ d"] show ?thesis
    by (simp add: dir_entry_def seen_entry_def)
next
  case False
  with wf show ?thesis
    by (auto simp: dir_entry_def seen_entry_def)
qed

lemma scan_entries_refines:
  "hwf (nlinks sc) \<Longrightarrow> first_free (nlinks sc) + length es \<le> 2 ^ 30 \<Longrightarrow>
   \<exists>sc'. scan_entries cfg es sc = Some sc' \<and> abstraction sc' = seen_run cfg es (abstraction sc)"
proof (induction es arbitrary: sc)
  case Nil
  then show ?case by (simp add: seen_run_def)
next
  case (Cons e es)
  obtain w d where e: "e = (w, d)" by (cases e)
  from Cons.prems have b: "first_free (nlinks sc) < 2 ^ 30" by simp
  from dir_entry_refines [OF Cons.prems(1) b, of cfg w d] obtain sc1 new where
    1: "dir_entry cfg w d sc = Some (sc1, new)" and a: "abstraction sc1 = seen_entry cfg (w, d) (abstraction sc)"
    and wf1: "hwf (nlinks sc1)" and f1: "first_free (nlinks sc1) \<le> first_free (nlinks sc) + 1"
    by blast
  from f1 Cons.prems have "first_free (nlinks sc1) + length es \<le> 2 ^ 30" by simp
  from Cons.IH [OF wf1 this] obtain sc' where
    "scan_entries cfg es sc1 = Some sc'" "abstraction sc' = seen_run cfg es (abstraction sc1)"
    by blast
  with 1 a e show ?case by (simp add: seen_run_def)
qed

lemma abstraction_start: "abstraction (start_scan fsy) = (fsy, {}, [])"
  using hwf_h_init(2) [of INIT_MODULE INIT_TAB_SIZE]
  by (simp add: abstraction_def start_scan_def INIT_MODULE_def INIT_TAB_SIZE_def)

lemma start_scan_refines:
  assumes "length es \<le> 2 ^ 30"
  shows "\<exists>sc'. scan_entries cfg es (start_scan fsy) = Some sc' \<and>
               abstraction sc' = seen_run cfg es (fsy, {}, [])"
proof -
  have "hwf (nlinks (start_scan fsy))" by (simp add: start_scan_def hwf_start)
  moreover have "first_free (nlinks (start_scan fsy)) + length es \<le> 2 ^ 30"
    using assms by (simp add: start_scan_def h_init_fields)
  ultimately show ?thesis
    using scan_entries_refines [of "start_scan fsy" es cfg] by (simp add: abstraction_start)
qed

section \<open>What a rewrite does\<close>










lemma uid_pass_trace:
  assumes "distinct (map fst ups)"
  shows "filter is_call (snd (uid_pass False lnk label path st ups (fsy, tr))) =
           filter is_call tr @ (case map_of ups (st_uid st) of None \<Rightarrow> [] | Some n \<Rightarrow> [call_event lnk path n (- 1)])"
  using assms by (simp add: uid_pass_real is_call_call_event split: option.splits)

lemma gid_pass_trace:
  assumes "distinct (map fst gps)"
  shows "filter is_call (snd (gid_pass False lnk label path st gps (fsy, tr))) =
           filter is_call tr @ (case map_of gps (st_gid st) of None \<Rightarrow> [] | Some n \<Rightarrow> [call_event lnk path (- 1) n])"
  using assms by (simp add: gid_pass_real is_call_call_event split: option.splits)

lemma rewrite_ids_calls:
  assumes "distinct_olds cfg"
  shows "filter is_call (snd (rewrite_ids cfg lnk label path st (fsy, tr))) =
           filter is_call tr @ calls_of cfg lnk path st"
proof (cases "dryrun cfg")
  case True
  then show ?thesis
    by (simp add: rewrite_ids_dry calls_of_def no_call_dry_lines)
next
  case False
  obtain f1 t1 where 1: "uid_pass False lnk label path st (begin_uidpair cfg) (fsy, tr) = (f1, t1)"
    by (cases "uid_pass False lnk label path st (begin_uidpair cfg) (fsy, tr)") auto
  have a: "filter is_call t1 = filter is_call tr @
      (case map_of (begin_uidpair cfg) (st_uid st) of None \<Rightarrow> [] | Some n \<Rightarrow> [call_event lnk path n (- 1)])"
    using uid_pass_trace [of "begin_uidpair cfg" lnk label path st fsy tr] assms 1
    by (simp add: distinct_olds_def)
  have b: "filter is_call (snd (gid_pass False lnk label path st (begin_gidpair cfg) (f1, t1))) =
      filter is_call t1 @
      (case map_of (begin_gidpair cfg) (st_gid st) of None \<Rightarrow> [] | Some n \<Rightarrow> [call_event lnk path (- 1) n])"
    using gid_pass_trace [of "begin_gidpair cfg" lnk label path st f1 t1] assms
    by (simp add: distinct_olds_def)
  from False 1 a b show ?thesis
    by (simp add: rewrite_ids_def calls_of_def)
qed

lemma length_calls_of: "length (calls_of cfg lnk path st) \<le> 2"
  by (simp add: calls_of_def split: option.splits)

lemma event_path_calls_of: "e \<in> set (calls_of cfg lnk path st) \<Longrightarrow> event_path e = path"
  by (auto simp: calls_of_def event_path_call_event split: if_splits option.splits)

lemma uid_pass_extends:
  "\<exists>new. snd (uid_pass dr lnk label path st ups (fsy, tr)) = tr @ new \<and> (\<forall>e \<in> set new. event_path e = path)"
proof (induction ups arbitrary: fsy tr)
  case Nil
  then show ?case by simp
next
  case (Cons p ups)
  obtain old n where p: "p = (old, n)" by (cases p)
  show ?case
  proof (cases "old = st_uid st \<and> \<not> dr \<and> sys_chown lnk fsy path n (- 1) = None")
    case True
    from Cons.IH [of fsy "tr @ [call_event lnk path n (- 1), Log WARNING path]"] obtain new where
      "snd (uid_pass dr lnk label path st ups (fsy, tr @ [call_event lnk path n (- 1), Log WARNING path])) =
         (tr @ [call_event lnk path n (- 1), Log WARNING path]) @ new" "\<forall>e \<in> set new. event_path e = path"
      by blast
    with True p show ?thesis
      by (simp add: event_path_call_event)
  next
    case False
    with p Cons.IH [of fsy tr] show ?thesis
      by (auto simp: event_path_call_event split: option.splits)
  qed
qed

lemma gid_pass_extends:
  "\<exists>new. snd (gid_pass dr lnk label path st gps (fsy, tr)) = tr @ new \<and> (\<forall>e \<in> set new. event_path e = path)"
proof (induction gps arbitrary: fsy tr)
  case Nil
  then show ?case by simp
next
  case (Cons p gps)
  obtain old n where p: "p = (old, n)" by (cases p)
  show ?case
  proof (cases "old = st_gid st \<and> \<not> dr \<and> sys_chown lnk fsy path (- 1) n = None")
    case True
    from Cons.IH [of fsy "tr @ [call_event lnk path (- 1) n, Log WARNING path]"] obtain new where
      "snd (gid_pass dr lnk label path st gps (fsy, tr @ [call_event lnk path (- 1) n, Log WARNING path])) =
         (tr @ [call_event lnk path (- 1) n, Log WARNING path]) @ new" "\<forall>e \<in> set new. event_path e = path"
      by blast
    with True p show ?thesis
      by (simp add: event_path_call_event)
  next
    case False
    with p Cons.IH [of fsy tr] show ?thesis
      by (auto simp: event_path_call_event split: option.splits)
  qed
qed

lemma rewrite_ids_extends:
  "\<exists>new. snd (rewrite_ids cfg lnk label path st (fsy, tr)) = tr @ new \<and> (\<forall>e \<in> set new. event_path e = path)"
proof -
  obtain f1 t1 where 1: "uid_pass (dryrun cfg) lnk label path st (begin_uidpair cfg) (fsy, tr) = (f1, t1)"
    by (cases "uid_pass (dryrun cfg) lnk label path st (begin_uidpair cfg) (fsy, tr)") auto
  from uid_pass_extends [of "dryrun cfg" lnk label path st "begin_uidpair cfg" fsy tr] 1
  obtain n1 where a: "t1 = tr @ n1" "\<forall>e \<in> set n1. event_path e = path" by auto
  from gid_pass_extends [of "dryrun cfg" lnk label path st "begin_gidpair cfg" f1 t1]
  obtain n2 where b: "snd (gid_pass (dryrun cfg) lnk label path st (begin_gidpair cfg) (f1, t1)) = t1 @ n2"
    "\<forall>e \<in> set n2. event_path e = path" by auto
  from 1 a b have "snd (rewrite_ids cfg lnk label path st (fsy, tr)) = tr @ (n1 @ n2)"
    by (simp add: rewrite_ids_def)
  moreover from a b have "\<forall>e \<in> set (n1 @ n2). event_path e = path" by auto
  ultimately show ?thesis by blast
qed

section \<open>The dry run\<close>

lemma seen_child_dry:
  assumes "dryrun cfg" and "seen_child cfg path (fsy, S, tr) = (fsy', S', tr')"
  shows "fsy' = fsy \<and> filter is_call tr' = filter is_call tr"
  using assms
  by (auto simp: seen_child_def rewrite_ids_dry no_call_dry_lines
      split: option.splits ftype.splits if_splits)

lemma seen_entry_dry:
  assumes "dryrun cfg" and "seen_entry cfg e (fsy, S, tr) = (fsy', S', tr')"
  shows "fsy' = fsy \<and> filter is_call tr' = filter is_call tr"
  using assms seen_child_dry [OF assms(1)]
  by (auto simp: seen_entry_def split: if_splits)

lemma seen_run_dry:
  "dryrun cfg \<Longrightarrow> seen_run cfg es (fsy, S, tr) = (fsy', S', tr') \<Longrightarrow>
   fsy' = fsy \<and> filter is_call tr' = filter is_call tr"
proof (induction es arbitrary: fsy S tr)
  case Nil
  then show ?case by (simp add: seen_run_def)
next
  case (Cons e es)
  obtain f1 S1 t1 where 1: "seen_entry cfg e (fsy, S, tr) = (f1, S1, t1)"
    by (cases "seen_entry cfg e (fsy, S, tr)") auto
  from seen_entry_dry [OF Cons.prems(1) 1] have a: "f1 = fsy" "filter is_call t1 = filter is_call tr"
    by simp_all
  from Cons.prems(2) 1 have "seen_run cfg es (f1, S1, t1) = (fsy', S', tr')"
    by (simp add: seen_run_def)
  from Cons.IH [OF Cons.prems(1) this] a show ?case by simp
qed

text \<open>
  Claim C4. In dry-run mode the rewrite of an entry leaves the file system as it is and
  adds to the trace exactly the lines of the entry: one line when a pair matches its
  uid and one when a pair matches its gid, and no call of \<open>chown\<close> or \<open>lchown\<close>. A
  whole dry run ends with the file system it started on and adds no call to the trace.
\<close>

theorem dry_run_changes_nothing:
  assumes "dryrun cfg" and "hwf (nlinks sc)" and "first_free (nlinks sc) + length es \<le> 2 ^ 30"
  shows "rewrite_ids cfg lnk label path st (fsy, tr) = (fsy, tr @ dry_lines cfg label path st) \<and>
         filter is_call (dry_lines cfg label path st) = [] \<and>
         length (dry_lines cfg label path st) =
           (if st_uid st \<in> fst ` set (begin_uidpair cfg) then 1 else 0) +
           (if st_gid st \<in> fst ` set (begin_gidpair cfg) then 1 else 0) \<and>
         (\<exists>sc'. scan_entries cfg es sc = Some sc' \<and> fsys sc' = fsys sc \<and>
               filter is_call (out sc') = filter is_call (out sc))"
proof -
  from scan_entries_refines [OF assms(2) assms(3), of cfg] obtain sc' where
    s: "scan_entries cfg es sc = Some sc'" and a: "abstraction sc' = seen_run cfg es (abstraction sc)"
    by blast
  then have "seen_run cfg es (fsys sc, contents (nlinks sc), out sc) =
      (fsys sc', contents (nlinks sc'), out sc')"
    by (simp add: abstraction_def)
  from seen_run_dry [OF assms(1) this] s have
    "\<exists>sc'. scan_entries cfg es sc = Some sc' \<and> fsys sc' = fsys sc \<and>
          filter is_call (out sc') = filter is_call (out sc)"
    by simp
  with rewrite_ids_dry [OF assms(1)] no_call_dry_lines length_dry_lines show ?thesis
    by blast
qed

lemma demo_dry_run:
  "seen_run (demo_cfg True) demo_entries (demo_fs, {}, []) =
     (demo_fs, {(2, 0)},
      [Stdout ''/a/f'' ''FILE'' Uid 1000 2000, Stdout ''/a/f'' ''FILE'' Gid 1000 3000,
       Stdout ''/a/l'' ''DIRECTORY'' Uid 1000 2000, Stdout ''/a/l'' ''DIRECTORY'' Gid 1000 3000])"
  by (simp add: seen_run_def seen_entry_def seen_child_def demo_entries_def demo_cfg_def
      root_element_def lstat_def demo_fs_def rewrite_ids_def)

theorem dry_run_changes_nothing_witness:
  "(\<exists>sc'. scan_entries (demo_cfg True) demo_entries (start_scan demo_fs) = Some sc' \<and>
         fsys sc' = demo_fs \<and> filter is_call (out sc') = [] \<and>
         out sc' =
           [Stdout ''/a/f'' ''FILE'' Uid 1000 2000, Stdout ''/a/f'' ''FILE'' Gid 1000 3000,
            Stdout ''/a/l'' ''DIRECTORY'' Uid 1000 2000, Stdout ''/a/l'' ''DIRECTORY'' Gid 1000 3000])"
proof -
  have d: "dryrun (demo_cfg True)" by (simp add: demo_cfg_def)
  have w: "hwf (nlinks (start_scan demo_fs))" by (simp add: start_scan_def hwf_start)
  have b: "first_free (nlinks (start_scan demo_fs)) + length demo_entries \<le> 2 ^ 30"
    by (simp add: start_scan_def h_init_fields demo_entries_def)
  from dry_run_changes_nothing [OF d w b] obtain sc' where
    1: "scan_entries (demo_cfg True) demo_entries (start_scan demo_fs) = Some sc'"
    and 2: "fsys sc' = fsys (start_scan demo_fs)"
    and 3: "filter is_call (out sc') = filter is_call (out (start_scan demo_fs))"
    by blast
  have l: "length demo_entries \<le> 2 ^ 30" by (simp add: demo_entries_def)
  from start_scan_refines [OF l, of "demo_cfg True" demo_fs] 1
  have "abstraction sc' = seen_run (demo_cfg True) demo_entries (demo_fs, {}, [])" by simp
  then have "out sc' =
           [Stdout ''/a/f'' ''FILE'' Uid 1000 2000, Stdout ''/a/f'' ''FILE'' Gid 1000 3000,
            Stdout ''/a/l'' ''DIRECTORY'' Uid 1000 2000, Stdout ''/a/l'' ''DIRECTORY'' Gid 1000 3000]"
    by (simp add: abstraction_def demo_dry_run)
  with 1 2 3 show ?thesis by (simp add: start_scan_def)
qed

section \<open>Hard links\<close>

lemma same_shape_refl: "same_shape fsy fsy"
  by (simp add: same_shape_def)

lemma same_shape_trans: "same_shape a b \<Longrightarrow> same_shape b c \<Longrightarrow> same_shape a c"
  by (simp add: same_shape_def)

lemma same_shape_lchown:
  "lchown fsy path owner grp = Some fsy' \<Longrightarrow> same_shape fsy fsy'"
  by (auto simp: lchown_def same_shape_def split: option.splits if_splits)

lemma same_shape_uid_pass:
  "same_shape fsy (fst (uid_pass dr lnk label path st ups (fsy, tr)))"
proof (induction ups arbitrary: tr)
  case Nil
  then show ?case by (simp add: same_shape_refl)
next
  case (Cons p ups)
  obtain old n where p: "p = (old, n)" by (cases p)
  show ?case
    using Cons.IH p same_shape_lchown [of fsy path n "- 1"]
    by (auto simp: same_shape_refl sys_chown_lchown split: option.splits)
qed

lemma same_shape_gid_pass:
  "same_shape fsy (fst (gid_pass dr lnk label path st gps (fsy, tr)))"
proof (induction gps arbitrary: tr)
  case Nil
  then show ?case by (simp add: same_shape_refl)
next
  case (Cons p gps)
  obtain old n where p: "p = (old, n)" by (cases p)
  show ?case
    using Cons.IH p same_shape_lchown [of fsy path "- 1" n]
    by (auto simp: same_shape_refl sys_chown_lchown split: option.splits)
qed

lemma same_shape_rewrite_ids:
  "same_shape fsy (fst (rewrite_ids cfg lnk label path st (fsy, tr)))"
proof -
  obtain f1 t1 where 1: "uid_pass (dryrun cfg) lnk label path st (begin_uidpair cfg) (fsy, tr) = (f1, t1)"
    by (cases "uid_pass (dryrun cfg) lnk label path st (begin_uidpair cfg) (fsy, tr)") auto
  have a: "same_shape fsy f1"
    using same_shape_uid_pass [of fsy "dryrun cfg" lnk label path st "begin_uidpair cfg" tr] 1 by simp
  have b: "same_shape f1 (fst (gid_pass (dryrun cfg) lnk label path st (begin_gidpair cfg) (f1, t1)))"
    by (rule same_shape_gid_pass)
  from same_shape_trans [OF a b] 1 show ?thesis by (simp add: rewrite_ids_def)
qed

lemma calls_on_append: "calls_on fsy k (tr @ new) = calls_on fsy k tr @ calls_on fsy k new"
  by (simp add: calls_on_def)

lemma calls_on_other:
  assumes "\<forall>e \<in> set new. event_path e = path" and "dentry fsy path \<noteq> Some k"
  shows "calls_on fsy k new = []"
  using assms by (auto simp: calls_on_def filter_empty_conv)

lemma calls_on_same:
  assumes "\<forall>e \<in> set new. event_path e = path" and "dentry fsy path = Some k"
  shows "calls_on fsy k new = filter is_call new"
  using assms by (auto simp: calls_on_def intro: filter_cong)

text \<open>What one entry does to the calls on the class of a regular file with several links.\<close>

lemma seen_child_class:
  assumes dis: "distinct_olds cfg"
    and reg: "inode_of fsy k = Some n" "i_mode n = S_IFREG" "1 < i_nlink n"
    and step: "seen_child cfg path (fsy, S, tr) = (f1, S1, t1)"
  shows "same_shape fsy f1 \<and> S \<subseteq> S1 \<and>
         (\<exists>X. calls_on fsy k t1 = calls_on fsy k tr @ X \<and> length X \<le> 2 \<and> (k \<in> S \<longrightarrow> X = []) \<and>
              (X \<noteq> [] \<longrightarrow> k \<in> S1) \<and>
              (X = [] \<or> (\<exists>p st. dentry fsy p = Some k \<and> X = calls_of cfg False p st)))"
proof (cases "lstat fsy path")
  case None
  with step have "f1 = fsy" "S1 = S" "t1 = tr @ [Log WARNING path]"
    by (simp_all add: seen_child_def)
  then show ?thesis
    by (simp add: same_shape_refl calls_on_def)
next
  case (Some st)
  from lstat_SomeD [OF Some] obtain k' n' where
    d: "dentry fsy path = Some k'" and i: "inode_of fsy k' = Some n'" and k': "k' = (st_ino st, st_dev st)"
    and m: "st_mode st = i_mode n'" and l: "st_nlink st = i_nlink n'"
    by blast
  have ext: "\<And>lnk label. \<exists>new. snd (rewrite_ids cfg lnk label path st (fsy, tr)) = tr @ new \<and>
      (\<forall>e \<in> set new. event_path e = path)"
    by (rule rewrite_ids_extends)
  have shape: "\<And>lnk label. same_shape fsy (fst (rewrite_ids cfg lnk label path st (fsy, tr)))"
    by (rule same_shape_rewrite_ids)
  show ?thesis
  proof (cases "k' = k")
    case True
    with i reg m l have reg': "st_mode st = S_IFREG" "1 < st_nlink st" by simp_all
    show ?thesis
    proof (cases "k \<in> S")
      case inS: True
      with step Some reg' True k' have "f1 = fsy" "S1 = S" "t1 = tr"
        by (simp_all add: seen_child_def)
      then show ?thesis by (simp add: same_shape_refl)
    next
      case False
      with step Some reg' True k' have r: "rewrite_ids cfg False ''FILE'' path st (fsy, tr) = (f1, t1)"
        and S1: "S1 = insert k S"
        by (auto simp: seen_child_def split: prod.splits)
      from ext [of False "''FILE''"] r obtain new where
        new: "t1 = tr @ new" "\<forall>e \<in> set new. event_path e = path" by auto
      from rewrite_ids_calls [OF dis, of False "''FILE''" path st fsy tr] r new
      have "filter is_call new = calls_of cfg False path st" by simp
      with calls_on_same [OF new(2)] d True have c: "calls_on fsy k new = calls_of cfg False path st"
        by simp
      have "calls_on fsy k t1 = calls_on fsy k tr @ calls_of cfg False path st"
        using new c by (simp add: calls_on_append)
      moreover have "same_shape fsy f1" using shape [of False "''FILE''"] r by simp
      moreover have "dentry fsy path = Some k" using d True by simp
      ultimately show ?thesis
        using S1 False length_calls_of [of cfg False path st] by blast
    qed
  next
    case False
    have dk: "dentry fsy path \<noteq> Some k" using d False by simp
    have other: "\<And>new. \<forall>e \<in> set new. event_path e = path \<Longrightarrow> calls_on fsy k new = []"
      by (rule calls_on_other [OF _ dk])
    have "same_shape fsy f1 \<and> S \<subseteq> S1 \<and> (\<exists>new. t1 = tr @ new \<and> (\<forall>e \<in> set new. event_path e = path))"
    proof (cases "st_mode st")
      case S_IFOTHER
      with step Some show ?thesis by (simp add: seen_child_def same_shape_refl)
    next
      case S_IFLNK
      with step Some have r: "rewrite_ids cfg True ''DIRECTORY'' path st (fsy, tr) = (f1, t1)" and "S1 = S"
        by (auto simp: seen_child_def split: prod.splits)
      with ext [of True "''DIRECTORY''"] shape [of True "''DIRECTORY''"] show ?thesis by auto
    next
      case S_IFDIR
      with step Some have r: "rewrite_ids cfg False ''DIRECTORY'' path st (fsy, tr) = (f1, t1)" and "S1 = S"
        by (auto simp: seen_child_def split: prod.splits)
      with ext [of False "''DIRECTORY''"] shape [of False "''DIRECTORY''"] show ?thesis by auto
    next
      case S_IFREG
      show ?thesis
      proof (cases "st_nlink st > 1 \<and> (st_ino st, st_dev st) \<in> S")
        case True
        with step Some S_IFREG show ?thesis by (simp add: seen_child_def same_shape_refl)
      next
        case nr: False
        with step Some S_IFREG have r: "rewrite_ids cfg False ''FILE'' path st (fsy, tr) = (f1, t1)"
          and "S \<subseteq> S1"
          by (auto simp: seen_child_def split: prod.splits if_splits)
        with ext [of False "''FILE''"] shape [of False "''FILE''"] show ?thesis by auto
      qed
    qed
    then obtain new where a: "same_shape fsy f1" "S \<subseteq> S1" "t1 = tr @ new"
      "\<forall>e \<in> set new. event_path e = path"
      by blast
    from other [OF a(4)] a(3) have "calls_on fsy k t1 = calls_on fsy k tr @ []"
      by (simp add: calls_on_append)
    with a show ?thesis by (metis list.size(3) zero_le)
  qed
qed

lemma seen_entry_class:
  assumes dis: "distinct_olds cfg"
    and reg: "inode_of fsy k = Some n" "i_mode n = S_IFREG" "1 < i_nlink n"
    and step: "seen_entry cfg e (fsy, S, tr) = (f1, S1, t1)"
  shows "same_shape fsy f1 \<and> S \<subseteq> S1 \<and>
         (\<exists>X. calls_on fsy k t1 = calls_on fsy k tr @ X \<and> length X \<le> 2 \<and> (k \<in> S \<longrightarrow> X = []) \<and>
              (X \<noteq> [] \<longrightarrow> k \<in> S1) \<and>
              (X = [] \<or> (\<exists>p st. dentry fsy p = Some k \<and> X = calls_of cfg False p st)))"
proof (cases "snd e \<noteq> ''.'' \<and> snd e \<noteq> ''..'' \<and> snd e \<notin> set (begin_exclude_file cfg)")
  case True
  with step have "seen_child cfg (name (fst e) @ ''/'' @ snd e) (fsy, S, tr) = (f1, S1, t1)"
    by (simp add: seen_entry_def)
  from seen_child_class [OF dis reg this] show ?thesis .
next
  case False
  with step have "f1 = fsy" "S1 = S" "t1 = tr" by (auto simp: seen_entry_def)
  then show ?thesis by (simp add: same_shape_refl)
qed

lemma same_shape_reg:
  assumes "same_shape fsy f1" and "inode_of fsy k = Some n" and "i_mode n = S_IFREG" and "1 < i_nlink n"
  shows "\<exists>n1. inode_of f1 k = Some n1 \<and> i_mode n1 = S_IFREG \<and> 1 < i_nlink n1"
proof -
  from assms(1) have "map_option i_mode (inode_of f1 k) = map_option i_mode (inode_of fsy k)"
    and "map_option i_nlink (inode_of f1 k) = map_option i_nlink (inode_of fsy k)"
    unfolding same_shape_def by blast+
  with assms(2-4) show ?thesis by auto
qed

lemma calls_on_shape: "same_shape fsy f1 \<Longrightarrow> calls_on f1 k tr = calls_on fsy k tr"
  by (simp add: calls_on_def same_shape_def)

lemma seen_run_class:
  assumes dis: "distinct_olds cfg"
  shows "inode_of fsy k = Some n \<Longrightarrow> i_mode n = S_IFREG \<Longrightarrow> 1 < i_nlink n \<Longrightarrow>
         seen_run cfg es (fsy, S, tr) = (fsy', S', tr') \<Longrightarrow>
         \<exists>X. calls_on fsy k tr' = calls_on fsy k tr @ X \<and> length X \<le> 2 \<and> (k \<in> S \<longrightarrow> X = []) \<and>
             (X = [] \<or> (\<exists>p st. dentry fsy p = Some k \<and> X = calls_of cfg False p st))"
proof (induction es arbitrary: fsy S tr n)
  case Nil
  then show ?case by (simp add: seen_run_def)
next
  case (Cons e es)
  obtain f1 S1 t1 where 1: "seen_entry cfg e (fsy, S, tr) = (f1, S1, t1)"
    by (cases "seen_entry cfg e (fsy, S, tr)") auto
  from seen_entry_class [OF dis Cons.prems(1-3) 1] obtain X where
    sh: "same_shape fsy f1" and sub: "S \<subseteq> S1"
    and X: "calls_on fsy k t1 = calls_on fsy k tr @ X" "length X \<le> 2" "k \<in> S \<longrightarrow> X = []"
      "X \<noteq> [] \<longrightarrow> k \<in> S1" "X = [] \<or> (\<exists>p st. dentry fsy p = Some k \<and> X = calls_of cfg False p st)"
    by blast
  from same_shape_reg [OF sh Cons.prems(1-3)] obtain n1 where
    r1: "inode_of f1 k = Some n1" "i_mode n1 = S_IFREG" "1 < i_nlink n1" by blast
  from Cons.prems(4) 1 have "seen_run cfg es (f1, S1, t1) = (fsy', S', tr')"
    by (simp add: seen_run_def)
  from Cons.IH [OF r1 this] obtain Y where
    Y: "calls_on f1 k tr' = calls_on f1 k t1 @ Y" "length Y \<le> 2" "k \<in> S1 \<longrightarrow> Y = []"
      "Y = [] \<or> (\<exists>p st. dentry f1 p = Some k \<and> Y = calls_of cfg False p st)"
    by blast
  have de: "dentry f1 = dentry fsy" using sh by (simp add: same_shape_def)
  have tot: "calls_on fsy k tr' = calls_on fsy k tr @ (X @ Y)"
    using X(1) Y(1) calls_on_shape [OF sh] by simp
  show ?case
  proof (cases "X = []")
    case True
    with tot Y X sub de show ?thesis by auto
  next
    case False
    with X(4) Y(3) have "Y = []" by simp
    with tot X show ?thesis by auto
  qed
qed

lemma process_child_hard_link:
  assumes wf: "hwf (nlinks sc)" and bound: "first_free (nlinks sc) < 2 ^ 30"
    and reg: "inode_of (fsys sc) k = Some n" "i_mode n = S_IFREG" "1 < i_nlink n"
    and d: "dentry (fsys sc) path = Some k"
  shows "\<exists>sc1 new. process_child cfg w path sc = Some (sc1, new) \<and> k \<in> contents (nlinks sc1) \<and>
           (k \<in> contents (nlinks sc) \<longrightarrow> fsys sc1 = fsys sc \<and> out sc1 = out sc) \<and>
           (k \<notin> contents (nlinks sc) \<longrightarrow>
              (\<exists>st. lstat (fsys sc) path = Some st \<and>
                    (fsys sc1, out sc1) = rewrite_ids cfg False ''FILE'' path st (fsys sc, out sc)))"
proof -
  let ?st = "\<lparr>st_mode = i_mode n, st_ino = fst k, st_dev = snd k, st_nlink = i_nlink n,
              st_uid = i_uid n, st_gid = i_gid n\<rparr>"
  have ls: "lstat (fsys sc) path = Some ?st" by (rule lstat_at [OF d reg(1)])
  from process_child_refines [OF wf bound, of cfg w path] obtain sc1 new where
    p: "process_child cfg w path sc = Some (sc1, new)"
    and a: "abstraction sc1 = seen_child cfg path (abstraction sc)"
    by blast
  show ?thesis
  proof (cases "k \<in> contents (nlinks sc)")
    case True
    with a ls reg have "abstraction sc1 = abstraction sc"
      by (simp add: seen_child_def abstraction_def)
    with True p show ?thesis by (auto simp: abstraction_def)
  next
    case False
    obtain f1 t1 where r: "rewrite_ids cfg False ''FILE'' path ?st (fsys sc, out sc) = (f1, t1)"
      by (cases "rewrite_ids cfg False ''FILE'' path ?st (fsys sc, out sc)") auto
    with False a ls reg have "abstraction sc1 = (f1, insert k (contents (nlinks sc)), t1)"
      by (simp add: seen_child_def abstraction_def)
    with False p ls r show ?thesis by (auto simp: abstraction_def)
  qed
qed

text \<open>
  Claim C1, as the code has it. For the class of a regular file with more than one
  link: a visit of a path of the class leaves the pair in the hash table; when the pair
  was there already the visit changes neither the file system nor the trace, and when
  it was not the visit is the id-rewrite of the entry. So over a whole run the calls of
  \<open>chown\<close> on the class are those of at most one id-rewrite: at most two, one for the
  pair that matches the uid and one for the pair that matches the gid, and none when the
  pair was in the table at the start. The old ids of each list are distinct, as
  \<open>uid_list\<close> and \<open>gid_list\<close> leave them; fewer than \<open>2 ^ 30\<close> pairs are stored.
\<close>

theorem hard_link_class_rewritten_once:
  assumes "distinct_olds cfg" and "hwf (nlinks sc)" and "first_free (nlinks sc) + length es \<le> 2 ^ 30"
    and "first_free (nlinks sc) < 2 ^ 30"
    and "inode_of (fsys sc) k = Some n" and "i_mode n = S_IFREG" and "1 < i_nlink n"
    and "dentry (fsys sc) path = Some k"
  shows "(\<exists>sc1 new. process_child cfg w path sc = Some (sc1, new) \<and> k \<in> contents (nlinks sc1) \<and>
           (k \<in> contents (nlinks sc) \<longrightarrow> fsys sc1 = fsys sc \<and> out sc1 = out sc) \<and>
           (k \<notin> contents (nlinks sc) \<longrightarrow>
              (\<exists>st. lstat (fsys sc) path = Some st \<and>
                    (fsys sc1, out sc1) = rewrite_ids cfg False ''FILE'' path st (fsys sc, out sc)))) \<and>
         (\<exists>sc'. scan_entries cfg es sc = Some sc' \<and>
            (\<exists>X. calls_on (fsys sc) k (out sc') = calls_on (fsys sc) k (out sc) @ X \<and> length X \<le> 2 \<and>
                 (k \<in> contents (nlinks sc) \<longrightarrow> X = []) \<and>
                 (X = [] \<or> (\<exists>p st. dentry (fsys sc) p = Some k \<and> X = calls_of cfg False p st))))"
proof -
  note 1 = process_child_hard_link [OF assms(2) assms(4) assms(5-8), of cfg w]
  from scan_entries_refines [OF assms(2) assms(3), of cfg] obtain sc' where
    s: "scan_entries cfg es sc = Some sc'" and a: "abstraction sc' = seen_run cfg es (abstraction sc)"
    by blast
  then have "seen_run cfg es (fsys sc, contents (nlinks sc), out sc) =
      (fsys sc', contents (nlinks sc'), out sc')"
    by (simp add: abstraction_def)
  from seen_run_class [OF assms(1) assms(5-7) this] s have 2:
    "\<exists>sc'. scan_entries cfg es sc = Some sc' \<and>
       (\<exists>X. calls_on (fsys sc) k (out sc') = calls_on (fsys sc) k (out sc) @ X \<and> length X \<le> 2 \<and>
            (k \<in> contents (nlinks sc) \<longrightarrow> X = []) \<and>
            (X = [] \<or> (\<exists>p st. dentry (fsys sc) p = Some k \<and> X = calls_of cfg False p st)))"
    by blast
  from 1 2 show ?thesis by blast
qed

lemma uid_list_fst: "fst ` set (uid_list ps old new) = insert old (fst ` set ps)"
  by (induction ps) auto

lemma uid_list_distinct: "distinct (map fst ps) \<Longrightarrow> distinct (map fst (uid_list ps old new))"
  by (induction ps) (auto simp: uid_list_fst)

lemma gid_list_fst: "fst ` set (gid_list ps old new) = insert old (fst ` set ps)"
  by (induction ps) auto

lemma gid_list_distinct: "distinct (map fst ps) \<Longrightarrow> distinct (map fst (gid_list ps old new))"
  by (induction ps) (auto simp: gid_list_fst)

lemma parse_pairs_distinct:
  "distinct (map fst us) \<Longrightarrow> distinct (map fst gs) \<Longrightarrow>
   distinct (map fst (fst (parse_pairs ls (us, gs)))) \<and> distinct (map fst (snd (parse_pairs ls (us, gs))))"
proof (induction ls arbitrary: us gs)
  case Nil
  then show ?case by simp
next
  case (Cons l ls)
  obtain t old new where l: "l = (t, old, new)" by (cases l)
  show ?case
  proof (cases t)
    case Tag_u
    with l Cons.IH [OF uid_list_distinct [OF Cons.prems(1)] Cons.prems(2)] show ?thesis by simp
  next
    case Tag_g
    with l Cons.IH [OF Cons.prems(1) gid_list_distinct [OF Cons.prems(2)]] show ?thesis by simp
  qed
qed

lemma demo_real_trace:
  "snd (snd (seen_run (demo_cfg False) demo_entries (demo_fs, {}, []))) =
     [Chown ''/a/f'' 2000 (- 1), Log INFO ''/a/f'', Chown ''/a/f'' (- 1) 3000, Log INFO ''/a/f'',
      Lchown ''/a/l'' 2000 (- 1), Log INFO ''/a/l'', Lchown ''/a/l'' (- 1) 3000, Log INFO ''/a/l'']"
  by (simp add: seen_run_def seen_entry_def seen_child_def demo_entries_def demo_cfg_def
      root_element_def lstat_def demo_fs_def rewrite_ids_def sys_chown_def chown_def lchown_def
      call_event_def)

lemma demo_real_out:
  "\<exists>sc'. scan_entries (demo_cfg False) demo_entries (start_scan demo_fs) = Some sc' \<and>
     out sc' =
       [Chown ''/a/f'' 2000 (- 1), Log INFO ''/a/f'', Chown ''/a/f'' (- 1) 3000, Log INFO ''/a/f'',
        Lchown ''/a/l'' 2000 (- 1), Log INFO ''/a/l'', Lchown ''/a/l'' (- 1) 3000, Log INFO ''/a/l'']"
proof -
  have l: "length demo_entries \<le> 2 ^ 30" by (simp add: demo_entries_def)
  from start_scan_refines [OF l, of "demo_cfg False" demo_fs] obtain sc' where
    1: "scan_entries (demo_cfg False) demo_entries (start_scan demo_fs) = Some sc'"
    and 2: "abstraction sc' = seen_run (demo_cfg False) demo_entries (demo_fs, {}, [])"
    by blast
  from 2 have "out sc' = snd (snd (seen_run (demo_cfg False) demo_entries (demo_fs, {}, [])))"
    by (metis abstraction_def snd_conv)
  with 1 show ?thesis by (simp add: demo_real_trace)
qed

lemma demo_calls:
  "calls_on demo_fs (2, 0)
     [Chown ''/a/f'' 2000 (- 1), Log INFO ''/a/f'', Chown ''/a/f'' (- 1) 3000, Log INFO ''/a/f'',
      Lchown ''/a/l'' 2000 (- 1), Log INFO ''/a/l'', Lchown ''/a/l'' (- 1) 3000, Log INFO ''/a/l''] =
   [Chown ''/a/f'' 2000 (- 1), Chown ''/a/f'' (- 1) 3000]"
  by (simp add: calls_on_def demo_fs_def)

theorem hard_link_class_rewritten_once_witness:
  "\<exists>sc'. scan_entries (demo_cfg False) demo_entries (start_scan demo_fs) = Some sc' \<and>
     calls_on demo_fs (2, 0) (out sc') = [Chown ''/a/f'' 2000 (- 1), Chown ''/a/f'' (- 1) 3000] \<and>
     length (calls_on demo_fs (2, 0) (out sc')) \<le> 2"
proof -
  have c: "distinct_olds (demo_cfg False)" by (simp add: distinct_olds_def demo_cfg_def)
  have w: "hwf (nlinks (start_scan demo_fs))" by (simp add: start_scan_def hwf_start)
  have b: "first_free (nlinks (start_scan demo_fs)) + length demo_entries \<le> 2 ^ 30"
    "first_free (nlinks (start_scan demo_fs)) < 2 ^ 30"
    by (simp_all add: start_scan_def h_init_fields demo_entries_def)
  have i: "inode_of (fsys (start_scan demo_fs)) (2, 0) =
      Some \<lparr>i_mode = S_IFREG, i_nlink = 2, i_uid = 1000, i_gid = 1000\<rparr>"
    "i_mode \<lparr>i_mode = S_IFREG, i_nlink = 2, i_uid = 1000, i_gid = 1000\<rparr> = S_IFREG"
    "1 < i_nlink \<lparr>i_mode = S_IFREG, i_nlink = 2, i_uid = 1000, i_gid = 1000\<rparr>"
    "dentry (fsys (start_scan demo_fs)) ''/a/g'' = Some (2, 0)"
    by (simp_all add: start_scan_def demo_fs_def)
  from hard_link_class_rewritten_once [OF c w b i, of qa] obtain sc' X where
    1: "scan_entries (demo_cfg False) demo_entries (start_scan demo_fs) = Some sc'"
    and 2: "calls_on (fsys (start_scan demo_fs)) (2, 0) (out sc') =
              calls_on (fsys (start_scan demo_fs)) (2, 0) (out (start_scan demo_fs)) @ X" "length X \<le> 2"
    by blast
  from 2 have 3: "length (calls_on demo_fs (2, 0) (out sc')) \<le> 2"
    by (simp add: start_scan_def calls_on_def)
  from demo_real_out 1 have "calls_on demo_fs (2, 0) (out sc') =
      [Chown ''/a/f'' 2000 (- 1), Chown ''/a/f'' (- 1) 3000]"
    by (auto simp: demo_calls)
  with 1 3 show ?thesis by blast
qed

text \<open>
  Two calls of \<open>chown\<close> are made on one class when pairs match both its uid and its
  gid: more than the one call the claim allows.
\<close>

theorem two_calls_on_one_class_counterexample:
  "map_option (\<lambda>sc. calls_on demo_fs (2, 0) (out sc))
     (scan_entries (demo_cfg False) demo_entries (start_scan demo_fs)) =
   Some [Chown ''/a/f'' 2000 (- 1), Chown ''/a/f'' (- 1) 3000]"
  using demo_real_out by (auto simp: demo_calls)

section \<open>A second run\<close>


























end
